theory Spec2Isabelle
  imports Complex_Main "HOL-Library.AList"
begin

section \<open>The translation queue of main.py\<close>

text \<open>
  The program runs on one asyncio event loop: a coroutine runs without interruption from
  one suspension point (an \<^verbatim>\<open>await\<close> that really suspends) to the next. The model
  therefore has one atomic step for every stretch of code between two suspension points,
  and a run of the program is a list of such steps in the order in which the event loop
  takes them.

  \<^item> A path (\<^verbatim>\<open>pathlib.Path\<close>) is the string it prints as.
  \<^item> \<^verbatim>\<open>translate_tasks\<close> is a list of paths.
  \<^item> \<^verbatim>\<open>translate_result\<close> is a dict; a Python dict keeps its keys in insertion order,
    an assignment to a key already present keeps the key's place, so it is an
    association list with \<open>AList.update\<close> and \<open>AList.delete\<close>, read by \<open>map_of\<close>.
  \<^item> The task objects made by \<^verbatim>\<open>asyncio.create_task\<close> live in a table indexed by creation
    order; a task reference is its index.
  \<^item> \<^verbatim>\<open>time.perf_counter()\<close> is a float, a finite binary64 number; a reading is the real
    number it denotes. The sum \<^verbatim>\<open>t + TRANSLATE_RESULT_TIMEOUT\<close> of line 73 is a float
    addition: the exact sum rounded to the nearest binary64 number, ties to even. The
    comparison \<^verbatim>\<open><\<close> of two floats is exact.
\<close>

type_synonym path = string

definition TRANSLATE_RESULT_TIMEOUT :: real where
  "TRANSLATE_RESULT_TIMEOUT = 600"

subsection \<open>Float addition\<close>

text \<open>Rounding to the nearest integer, a tie going to the even one.\<close>

definition round_half_even :: "real \<Rightarrow> int" where
  "round_half_even q =
     (let f = \<lfloor>q\<rfloor>
      in if q - of_int f < 1 / 2 then f
         else if 1 / 2 < q - of_int f then f + 1
         else if even f then f else f + 1)"

text \<open>
  Rounding of a real number to binary64: 53 significant bits, the exponent of a normal
  number at least \<open>- 1022\<close>, below that the spacing of the subnormal numbers. A sum that
  rounds to \<open>2 ^ 1024\<close> or more is \<^verbatim>\<open>inf\<close> in Python; it is left as the real number here,
  which compares with a finite reading as \<^verbatim>\<open>inf\<close> does (it is not less than it).
\<close>

definition float_round :: "real \<Rightarrow> real" where
  "float_round x =
     (if x = 0 then 0
      else
        let e = max \<lfloor>log 2 \<bar>x\<bar>\<rfloor> (- 1022);
            ulp = 2 powr (of_int e - 52)
        in of_int (round_half_even (x / ulp)) * ulp)"

definition float_add :: "real \<Rightarrow> real \<Rightarrow> real" where
  "float_add a b = float_round (a + b)"

subsection \<open>The pending list\<close>

datatype py_error = ValueError

text \<open>\<^verbatim>\<open>list.index(x)\<close>: the index of the first element equal to \<open>x\<close>, ValueError if none.\<close>

primrec list_index :: "'a list \<Rightarrow> 'a \<Rightarrow> py_error + int" where
  "list_index [] x = Inl ValueError"
| "list_index (y # ys) x =
     (if y = x then Inr 0
      else (case list_index ys x of Inl e \<Rightarrow> Inl e | Inr i \<Rightarrow> Inr (i + 1)))"

text \<open>
  \<^verbatim>\<open>add_translate_task\<close>: append, return \<^verbatim>\<open>len(translate_tasks) - 1\<close>. The result is the
  new list and the returned integer.
\<close>

definition add_translate_task :: "path \<Rightarrow> path list \<Rightarrow> path list \<times> int" where
  "add_translate_task src ts = (ts @ [src], int (length (ts @ [src])) - 1)"

text \<open>\<^verbatim>\<open>translate_task_index\<close>: the index, or None where \<^verbatim>\<open>index\<close> raises ValueError.\<close>

definition translate_task_index :: "path \<Rightarrow> path list \<Rightarrow> int option" where
  "translate_task_index src ts =
     (case list_index ts src of Inr i \<Rightarrow> Some i | Inl ValueError \<Rightarrow> None)"

subsection \<open>Tasks, the result dict and the worker\<close>

text \<open>
  A task made from \<^verbatim>\<open>translate_manga_request(photo)\<close> is running until the HTTP exchange
  ends; then it is done, holding the returned path or the exception raised. What the
  exchange yields is an input of the model. \<open>Failure\<close> stands for any exception that
  \<^verbatim>\<open>except Exception\<close> catches.
\<close>

datatype outcome = Success path | Failure

datatype task_state = Running | Done outcome

text \<open>
  Where the worker is suspended, with the local variables that are read again later:
  \<^item> \<open>Sleep_idle\<close>: in the sleep of line 60;
  \<^item> \<open>Sleep_task photo task\<close>: in the sleep of line 66, waiting for \<open>task\<close>;
  \<^item> \<open>Sleep_reap timeout_photo rest\<close>: in the sleep of line 76, \<open>timeout_photo\<close> being the
    loop variable and \<open>rest\<close> the part of \<open>timeout_photos\<close> not yet visited;
  \<^item> \<open>Await_task task rest\<close>: in \<^verbatim>\<open>await task\<close> of line 80 on a task that is not done;
  \<^item> \<open>Crashed\<close>: ended by the KeyError of line 77.
\<close>

datatype worker_pc =
    Sleep_idle
  | Sleep_task path nat
  | Sleep_reap path "path list"
  | Await_task nat "path list"
  | Crashed

record state =
  translate_tasks :: "path list"
  translate_result :: "(path \<times> nat \<times> real) list"
  tasks :: "(path \<times> task_state) list"
  worker :: worker_pc

definition init :: state where
  "init = \<lparr>translate_tasks = [], translate_result = [], tasks = [], worker = Sleep_idle\<rparr>"

definition task_status :: "state \<Rightarrow> nat \<Rightarrow> task_state option" where
  "task_status s task =
     (if task < length (tasks s) then Some (snd (tasks s ! task)) else None)"

text \<open>\<^verbatim>\<open>task.done()\<close>.\<close>

definition task_done :: "state \<Rightarrow> nat \<Rightarrow> bool" where
  "task_done s task = (case task_status s task of Some (Done _) \<Rightarrow> True | _ \<Rightarrow> False)"

text \<open>The comprehension of lines 70 to 74, in the dict's order.\<close>

definition timeout_photos :: "(path \<times> nat \<times> real) list \<Rightarrow> real \<Rightarrow> path list" where
  "timeout_photos res now =
     map fst (filter (\<lambda>(photo, task, t). float_add t TRANSLATE_RESULT_TIMEOUT < now) res)"

text \<open>
  The \<^verbatim>\<open>for\<close> loop of line 75 on the photos still to visit: with none left the worker is
  back at the sleep of line 60, otherwise it sleeps at line 76.
\<close>

definition reap_next :: "path list \<Rightarrow> worker_pc" where
  "reap_next tps = (case tps of [] \<Rightarrow> Sleep_idle | tp # rest \<Rightarrow> Sleep_reap tp rest)"

text \<open>
  One wake-up of \<^verbatim>\<open>translater_worker\<close>, up to its next suspension. \<open>now\<close> is what
  \<^verbatim>\<open>time.perf_counter()\<close> returns if line 67 is reached in this step.
\<close>

definition translater_worker_step :: "real \<Rightarrow> state \<Rightarrow> state" where
  "translater_worker_step now s =
     (case worker s of
        Sleep_idle \<Rightarrow>
          (case translate_tasks s of
             [] \<Rightarrow> s
           | photo # rest \<Rightarrow>
               s\<lparr>translate_tasks := rest,
                 tasks := tasks s @ [(photo, Running)],
                 worker := Sleep_task photo (length (tasks s))\<rparr>)
      | Sleep_task photo task \<Rightarrow>
          (if \<not> task_done s task then s
           else
             let res = AList.update photo (task, now) (translate_result s)
             in s\<lparr>translate_result := res, worker := reap_next (timeout_photos res now)\<rparr>)
      | Sleep_reap timeout_photo rest \<Rightarrow>
          (case map_of (translate_result s) timeout_photo of
             None \<Rightarrow> s\<lparr>worker := Crashed\<rparr>
           | Some (task, t) \<Rightarrow>
               s\<lparr>translate_result := AList.delete timeout_photo (translate_result s),
                 worker := (if task_done s task then reap_next rest else Await_task task rest)\<rparr>)
      | Await_task task rest \<Rightarrow>
          (if task_done s task then s\<lparr>worker := reap_next rest\<rparr> else s)
      | Crashed \<Rightarrow> s)"

subsection \<open>Runs\<close>

text \<open>
  The steps that touch the shared state:
  \<^item> \<open>Submit src\<close>: some caller runs line 221, \<^verbatim>\<open>add_translate_task(src)\<close>;
  \<^item> \<open>Worker now\<close>: the worker wakes up;
  \<^item> \<open>Task_done task out\<close>: the running task \<open>task\<close> ends with \<open>out\<close>.
\<close>

datatype event = Submit path | Worker real | Task_done nat outcome

fun step :: "event \<Rightarrow> state \<Rightarrow> state" where
  "step (Submit src) s = s\<lparr>translate_tasks := fst (add_translate_task src (translate_tasks s))\<rparr>"
| "step (Worker now) s = translater_worker_step now s"
| "step (Task_done task out) s =
     (if task_status s task = Some Running
      then s\<lparr>tasks := (tasks s)[task := (fst (tasks s ! task), Done out)]\<rparr>
      else s)"

fun exec :: "event list \<Rightarrow> state \<Rightarrow> state" where
  "exec [] s = s"
| "exec (e # es) s = exec es (step e s)"

text \<open>The states a run passes through, one after each step.\<close>

fun trace :: "event list \<Rightarrow> state \<Rightarrow> state list" where
  "trace [] s = []"
| "trace (e # es) s = step e s # trace es (step e s)"

text \<open>The paths submitted in a run, in order.\<close>

fun submitted :: "event list \<Rightarrow> path list" where
  "submitted [] = []"
| "submitted (Submit src # es) = src # submitted es"
| "submitted (e # es) = submitted es"

text \<open>The arguments of the backend calls made so far, in the order of the calls.\<close>

definition dispatched :: "state \<Rightarrow> path list" where
  "dispatched s = map fst (tasks s)"

definition in_flight :: "state \<Rightarrow> nat list" where
  "in_flight s = filter (\<lambda>i. snd (tasks s ! i) = Running) [0 ..< length (tasks s)]"

text \<open>Whether a step is the worker taking a photo off the pending list (line 63).\<close>

definition dispatches :: "event \<Rightarrow> state \<Rightarrow> bool" where
  "dispatches e s =
     (case e of Worker now \<Rightarrow> worker s = Sleep_idle \<and> translate_tasks s \<noteq> [] | _ \<Rightarrow> False)"

definition is_worker :: "event \<Rightarrow> bool" where
  "is_worker e = (case e of Worker now \<Rightarrow> True | _ \<Rightarrow> False)"

text \<open>The photo whose result is not published yet, if the worker is between lines 63 and 68.\<close>

definition being_translated :: "state \<Rightarrow> path option" where
  "being_translated s = (case worker s of Sleep_task photo task \<Rightarrow> Some photo | _ \<Rightarrow> None)"

text \<open>
  What the callers owe: a path is submitted only while it is neither pending, nor being
  translated, nor a key of \<^verbatim>\<open>translate_result\<close>. The paths of the program are built from
  the user name, chat id and message id of a message, one per message.
\<close>

definition fresh :: "event \<Rightarrow> state \<Rightarrow> bool" where
  "fresh e s =
     (case e of
        Submit src \<Rightarrow>
          src \<notin> set (translate_tasks s) \<and> map_of (translate_result s) src = None \<and>
          being_translated s \<noteq> Some src
      | _ \<Rightarrow> True)"

fun obeys :: "event list \<Rightarrow> state \<Rightarrow> bool" where
  "obeys [] s = True"
| "obeys (e # es) s = (fresh e s \<and> obeys es (step e s))"

subsection \<open>The caller: \<^verbatim>\<open>ChatMessageReader.save_photo\<close>\<close>

datatype error =
    PhotoMissing int
  | PhotoTooBig int
  | UnknownError
  | AssertionError
  | TelegramError

text \<open>
  Of the Telegram objects only the attributes that are read: \<^verbatim>\<open>PhotoSize.file_id\<close>,
  \<^verbatim>\<open>File.file_size\<close> (an optional integer), \<^verbatim>\<open>User.username\<close> (an optional string), and of
  \<^verbatim>\<open>Message\<close> the sender, the two ids and the tuple of photo sizes.
\<close>

record photo_size =
  file_id :: string

record tg_file =
  file_size :: "int option"

record user =
  username :: "string option"

record message =
  from_user :: "user option"
  message_id :: int
  chat_id :: int
  photo :: "photo_size list"

text \<open>\<^verbatim>\<open>str\<close> of an integer, as the f-string of line 148 formats the ids.\<close>

fun str_nat :: "nat \<Rightarrow> string" where
  "str_nat n =
     (if n < 10 then [''0123456789'' ! n]
      else str_nat (n div 10) @ [''0123456789'' ! (n mod 10)])"

definition str_int :: "int \<Rightarrow> string" where
  "str_int i = (if i < 0 then CHR ''-'' # str_nat (nat (- i)) else str_nat (nat i))"

definition str_username :: "string option \<Rightarrow> string" where
  "str_username u = (case u of None \<Rightarrow> ''None'' | Some name \<Rightarrow> name)"

text \<open>Line 148; \<^verbatim>\<open>SAVE_IMAGE_PATH\<close> is \<^verbatim>\<open>Path("./saved")\<close>, which prints as \<^verbatim>\<open>saved\<close>.\<close>

definition save_path :: "string option \<Rightarrow> int \<Rightarrow> int \<Rightarrow> path" where
  "save_path uname chat msg_id =
     ''saved/'' @ str_username uname @ ''_'' @ str_int chat @ ''_'' @ str_int msg_id @ ''.jpg''"

text \<open>The test of line 145: \<^verbatim>\<open>file.file_size and file.file_size > 1024 * 1024\<close>.\<close>

definition size_too_big :: "int option \<Rightarrow> bool" where
  "size_too_big fs = (case fs of None \<Rightarrow> False | Some n \<Rightarrow> n \<noteq> 0 \<and> n > 1024 * 1024)"

text \<open>
  \<^verbatim>\<open>save_photo\<close>. The two calls that leave the process are inputs: \<open>get_file\<close> is
  \<^verbatim>\<open>bot.get_file\<close> (\<open>None\<close> when it raises, which is not caught here and leaves
  \<^verbatim>\<open>save_photo\<close> as \<open>TelegramError\<close>), and \<open>download_ok\<close> tells whether
  \<^verbatim>\<open>download_to_drive\<close> returned rather than raised.
\<close>

definition save_photo ::
  "message \<Rightarrow> (string \<Rightarrow> tg_file option) \<Rightarrow> bool \<Rightarrow> error + path" where
  "save_photo msg get_file download_ok =
     (case from_user msg of
        None \<Rightarrow> Inl AssertionError
      | Some sender \<Rightarrow>
          (let sized_photos = photo msg in
           if sized_photos = [] then Inl (PhotoMissing (message_id msg))
           else
             (case get_file (file_id (last sized_photos)) of
                None \<Rightarrow> Inl TelegramError
              | Some file \<Rightarrow>
                  if size_too_big (file_size file) then Inl (PhotoTooBig (the (file_size file)))
                  else if download_ok
                    then Inr (save_path (username sender) (chat_id msg) (message_id msg))
                    else Inl UnknownError)))"

subsection \<open>The caller: \<^verbatim>\<open>CatGirlService.run\<close>\<close>

text \<open>
  The texts sent to the user are Chinese sentences; each is a constructor here:
  \<^item> \<open>No_photo\<close>: line 210, \<open>Too_big\<close>: line 213, \<open>Cannot_save\<close>: line 216,
    \<open>Cannot_see\<close>: line 219;
  \<^item> \<open>Queued idx\<close>: line 223, "joined the queue, idx tasks ahead";
  \<^item> \<open>Started\<close>: lines 225 and 229, "processing has started";
  \<^item> \<open>Ahead idx\<close>: line 233, "now idx tasks ahead";
  \<^item> \<open>Failed\<close>: line 242, "translation failed".
  A call of a \<^verbatim>\<open>ResultReplyer\<close> method is an output of the caller.
\<close>

datatype text_sent =
    No_photo | Too_big | Cannot_save | Cannot_see
  | Queued int | Started | Ahead int | Failed

datatype reply =
    Reply_message text_sent
  | Reply_photo path
  | Edit_or_reply_message text_sent
  | Delete_last_message

text \<open>
  Lines 206 to 225, from the result of \<^verbatim>\<open>save_photo\<close> on: what is sent, the pending list
  afterwards, and how \<^verbatim>\<open>run\<close> goes on: it has returned, an exception left it, or it enters
  the loop of line 226 with \<open>saved_file_path\<close> and \<open>idx\<close>. \<open>file_exists\<close> is
  \<^verbatim>\<open>os.path.exists(saved_file_path)\<close>.
\<close>

datatype run_state = Returned | Raised error | Polling path int

definition run_submit ::
  "error + path \<Rightarrow> bool \<Rightarrow> path list \<Rightarrow> reply list \<times> path list \<times> run_state" where
  "run_submit saved file_exists ts =
     (case saved of
        Inl (PhotoMissing m) \<Rightarrow> ([Reply_message No_photo], ts, Returned)
      | Inl (PhotoTooBig n) \<Rightarrow> ([Reply_message Too_big], ts, Returned)
      | Inl UnknownError \<Rightarrow> ([Reply_message Cannot_save], ts, Returned)
      | Inl e \<Rightarrow> ([], ts, Raised e)
      | Inr saved_file_path \<Rightarrow>
          if \<not> file_exists then ([Reply_message Cannot_see], ts, Returned)
          else
            (let (ts', idx) = add_translate_task saved_file_path ts
             in ([Edit_or_reply_message (if idx \<noteq> 0 then Queued idx else Started)],
                 ts', Polling saved_file_path idx)))"

text \<open>
  One pass of the loop of lines 226 to 233 with the pending list as it is at that moment:
  \<^item> \<open>Loop_exit\<close>: \<^verbatim>\<open>idx\<close> is 0, the loop is not entered;
  \<^item> \<open>Break_started\<close>: \<^verbatim>\<open>not new_idx\<close> holds, \<open>Started\<close> is sent and the loop is left;
  \<^item> \<open>Progress new_idx\<close>: \<^verbatim>\<open>idx\<close> becomes \<open>new_idx\<close> and \<open>Ahead new_idx\<close> is sent;
  \<^item> \<open>Unchanged\<close>: nothing is sent and the next pass begins at once, with no
    suspension in between.
\<close>

datatype poll = Loop_exit | Break_started | Progress int | Unchanged

definition run_poll_position :: "int \<Rightarrow> path \<Rightarrow> path list \<Rightarrow> poll" where
  "run_poll_position idx saved_file_path ts =
     (if idx = 0 then Loop_exit
      else
        (case translate_task_index saved_file_path ts of
           None \<Rightarrow> Break_started
         | Some new_idx \<Rightarrow>
             if new_idx = 0 then Break_started
             else if idx \<noteq> new_idx then Progress new_idx
             else Unchanged))"

text \<open>
  The loop of lines 234 and 235 sleeps between two looks at \<^verbatim>\<open>translate_result\<close>. Its input
  is the list of states it finds at its successive wake-ups; it returns the first state
  in which the path is a key, and \<open>None\<close> when it is still sleeping after the last of them.
  Nothing is sent inside the loop.
\<close>

fun run_wait_result :: "path \<Rightarrow> state list \<Rightarrow> state option" where
  "run_wait_result saved_file_path [] = None"
| "run_wait_result saved_file_path (s # ss) =
     (if map_of (translate_result s) saved_file_path = None
      then run_wait_result saved_file_path ss
      else Some s)"

text \<open>
  Lines 236 to 245 in the state found at line 238, after \<^verbatim>\<open>delete_last_message\<close> has
  returned. A KeyError of line 238 and an exception of the task are caught by line 240.
  Awaiting a task that is not done suspends the caller; nothing more is sent in this step.
\<close>

definition run_deliver :: "path \<Rightarrow> state \<Rightarrow> reply list" where
  "run_deliver saved_file_path s =
     Delete_last_message #
     (case map_of (translate_result s) saved_file_path of
        None \<Rightarrow> [Reply_message Failed]
      | Some (task, t) \<Rightarrow>
          (case task_status s task of
             Some (Done (Success translated_file_path)) \<Rightarrow> [Reply_photo translated_file_path]
           | Some (Done Failure) \<Rightarrow> [Reply_message Failed]
           | _ \<Rightarrow> []))"

subsection \<open>Consistent states\<close>

text \<open>
  What holds of every state a run reaches: a running task is the one the worker waits
  for; the worker's task exists and was made for its photo; the keys of the result dict
  are distinct and each entry holds a finished task made for its key; the photos still
  to reap are distinct keys of the dict; the worker is never suspended in line 80.
\<close>

definition consistent :: "state \<Rightarrow> bool" where
  "consistent s \<longleftrightarrow>
     (\<forall>i < length (tasks s). snd (tasks s ! i) = Running \<longrightarrow>
        worker s = Sleep_task (fst (tasks s ! i)) i) \<and>
     (\<forall>p task. worker s = Sleep_task p task \<longrightarrow>
        task < length (tasks s) \<and> fst (tasks s ! task) = p) \<and>
     distinct (map fst (translate_result s)) \<and>
     (\<forall>(p, task, t) \<in> set (translate_result s).
        task < length (tasks s) \<and> fst (tasks s ! task) = p \<and> snd (tasks s ! task) \<noteq> Running) \<and>
     (\<forall>tp rest. worker s = Sleep_reap tp rest \<longrightarrow>
        distinct (tp # rest) \<and> set (tp # rest) \<subseteq> fst ` set (translate_result s)) \<and>
     (\<forall>task rest. worker s \<noteq> Await_task task rest)"

text \<open>With callers that keep their obligation, a path is in one place at a time.\<close>

definition separated :: "state \<Rightarrow> bool" where
  "separated s \<longleftrightarrow>
     distinct (translate_tasks s) \<and>
     set (translate_tasks s) \<inter> fst ` set (translate_result s) = {} \<and>
     (\<forall>p. being_translated s = Some p \<longrightarrow>
        p \<notin> set (translate_tasks s) \<and> p \<notin> fst ` set (translate_result s))"

text \<open>
  A path that is nowhere: not a key of \<^verbatim>\<open>translate_result\<close>, not pending and not being
  translated, as after its entry has been swept.
\<close>

definition gone :: "path \<Rightarrow> state \<Rightarrow> bool" where
  "gone src s \<longleftrightarrow>
     map_of (translate_result s) src = None \<and> src \<notin> set (translate_tasks s) \<and>
     being_translated s \<noteq> Some src"

section \<open>Properties\<close>

subsection \<open>Float addition on integers\<close>

lemma round_half_even_int: "round_half_even (of_int k) = k"
  by (simp add: round_half_even_def)

text \<open>An integer below \<open>2 ^ 53\<close> in absolute value is a binary64 number.\<close>

lemma float_round_int:
  assumes "\<bar>n\<bar> < 2 ^ 53"
  shows "float_round (of_int n) = of_int n"
proof (cases "n = 0")
  case True
  then show ?thesis by (simp add: float_round_def)
next
  case False
  let ?x = "of_int n :: real"
  let ?e = "\<lfloor>log 2 \<bar>?x\<bar>\<rfloor>"
  from False have "1 \<le> \<bar>n\<bar>" by linarith
  then have "(1::real) \<le> of_int \<bar>n\<bar>" by (simp only: of_int_1_le_iff)
  then have x1: "1 \<le> \<bar>?x\<bar>" by simp
  then have "0 \<le> log 2 \<bar>?x\<bar>" by simp
  then have e0: "0 \<le> ?e" by simp
  from assms have "(of_int \<bar>n\<bar> :: real) < 2 ^ 53"
    by (simp only: of_int_less_numeral_power_cancel_iff)
  then have "\<bar>?x\<bar> < 2 ^ 53" by simp
  with x1 have "log 2 \<bar>?x\<bar> < 53"
    by (simp add: less_log_iff log_less_iff less_powr_iff)
  then have e52: "?e \<le> 52" by linarith
  from e0 have m: "max ?e (- 1022) = ?e" by simp
  define k where "k = nat (52 - ?e)"
  with e52 have ke: "real_of_int ?e - 52 = - real k" by simp
  have u: "(2::real) powr (real_of_int ?e - 52) = 1 / 2 ^ k"
    by (simp only: ke) (simp add: powr_minus powr_realpow divide_simps)
  have q: "?x / (1 / 2 ^ k) = of_int (n * 2 ^ k)" by simp
  have "float_round ?x = of_int (round_half_even (?x / (1 / 2 ^ k))) * (1 / 2 ^ k)"
    using False by (simp add: float_round_def Let_def m u del: of_int_mult)
  also have "\<dots> = of_int (n * 2 ^ k) * (1 / 2 ^ k)"
    by (simp only: q round_half_even_int)
  also have "\<dots> = ?x" by simp
  finally show ?thesis .
qed

lemma float_round_numeral [simp]:
  "numeral w < (2::int) ^ 53 \<Longrightarrow> float_round (numeral w) = numeral w"
  using float_round_int [of "numeral w"] by simp

lemma float_round_0 [simp]: "float_round 0 = 0"
  by (simp add: float_round_def)

lemma float_round_1 [simp]: "float_round 1 = 1"
  using float_round_int [of 1] by simp

lemma worker_step_idle_empty:
  "worker s = Sleep_idle \<Longrightarrow> translate_tasks s = [] \<Longrightarrow> translater_worker_step now s = s"
  by (simp add: translater_worker_step_def)

lemma worker_step_idle_pop:
  "worker s = Sleep_idle \<Longrightarrow> translate_tasks s = p # rest \<Longrightarrow>
   translater_worker_step now s =
     s\<lparr>translate_tasks := rest, tasks := tasks s @ [(p, Running)],
       worker := Sleep_task p (length (tasks s))\<rparr>"
  by (simp add: translater_worker_step_def)

lemma worker_step_task_running:
  "worker s = Sleep_task p task \<Longrightarrow> \<not> task_done s task \<Longrightarrow> translater_worker_step now s = s"
  by (simp add: translater_worker_step_def)

lemma worker_step_task_publish:
  "worker s = Sleep_task p task \<Longrightarrow> task_done s task \<Longrightarrow>
   translater_worker_step now s =
     s\<lparr>translate_result := AList.update p (task, now) (translate_result s),
       worker := reap_next (timeout_photos (AList.update p (task, now) (translate_result s)) now)\<rparr>"
  by (simp add: translater_worker_step_def Let_def)

lemma worker_step_reap_missing:
  "worker s = Sleep_reap tp rest \<Longrightarrow> map_of (translate_result s) tp = None \<Longrightarrow>
   translater_worker_step now s = s\<lparr>worker := Crashed\<rparr>"
  by (simp add: translater_worker_step_def)

lemma worker_step_reap_delete:
  "worker s = Sleep_reap tp rest \<Longrightarrow> map_of (translate_result s) tp = Some (task, t) \<Longrightarrow>
   translater_worker_step now s =
     s\<lparr>translate_result := AList.delete tp (translate_result s),
       worker := (if task_done s task then reap_next rest else Await_task task rest)\<rparr>"
  by (simp add: translater_worker_step_def)

lemma worker_step_await:
  "worker s = Await_task task rest \<Longrightarrow>
   translater_worker_step now s = (if task_done s task then s\<lparr>worker := reap_next rest\<rparr> else s)"
  by (simp add: translater_worker_step_def)

lemma worker_step_crashed: "worker s = Crashed \<Longrightarrow> translater_worker_step now s = s"
  by (simp add: translater_worker_step_def)

lemma task_done_iff:
  "task_done s task \<longleftrightarrow> task < length (tasks s) \<and> snd (tasks s ! task) \<noteq> Running"
  by (auto simp: task_done_def task_status_def split: task_state.split)

lemma map_fst_mark_done: "map fst (xs[i := (fst (xs ! i), y)]) = map fst xs"
proof (cases "i < length xs")
  case True
  then show ?thesis by (simp add: map_update list_update_same_conv)
next
  case False
  then show ?thesis by (simp add: list_update_beyond not_less)
qed

lemma timeout_photos_distinct:
  "distinct (map fst res) \<Longrightarrow> distinct (timeout_photos res now)"
  by (simp add: timeout_photos_def distinct_map_filter)

lemma timeout_photos_subset: "set (timeout_photos res now) \<subseteq> fst ` set res"
  by (auto simp: timeout_photos_def)

lemma set_alist_update: "set (AList.update k v al) \<subseteq> insert (k, v) (set al)"
  by (induction al) auto

lemma consistentD:
  assumes "consistent s"
  shows running_is_awaited:
      "i < length (tasks s) \<Longrightarrow> snd (tasks s ! i) = Running \<Longrightarrow>
       worker s = Sleep_task (fst (tasks s ! i)) i"
    and worker_task_exists:
      "worker s = Sleep_task p task \<Longrightarrow> task < length (tasks s) \<and> fst (tasks s ! task) = p"
    and keys_distinct: "distinct (map fst (translate_result s))"
    and entry_done:
      "(p, task, t) \<in> set (translate_result s) \<Longrightarrow>
       task < length (tasks s) \<and> fst (tasks s ! task) = p \<and> snd (tasks s ! task) \<noteq> Running"
    and reap_keys:
      "worker s = Sleep_reap tp rest \<Longrightarrow>
       distinct (tp # rest) \<and> set (tp # rest) \<subseteq> fst ` set (translate_result s)"
    and never_awaits: "worker s \<noteq> Await_task task rest"
  using assms unfolding consistent_def by blast+

lemma consistentI:
  assumes "\<And>i. i < length (tasks s) \<Longrightarrow> snd (tasks s ! i) = Running \<Longrightarrow>
       worker s = Sleep_task (fst (tasks s ! i)) i"
    and "\<And>p task. worker s = Sleep_task p task \<Longrightarrow>
       task < length (tasks s) \<and> fst (tasks s ! task) = p"
    and "distinct (map fst (translate_result s))"
    and "\<And>p task t. (p, task, t) \<in> set (translate_result s) \<Longrightarrow>
       task < length (tasks s) \<and> fst (tasks s ! task) = p \<and> snd (tasks s ! task) \<noteq> Running"
    and "\<And>tp rest. worker s = Sleep_reap tp rest \<Longrightarrow>
       distinct (tp # rest) \<and> set (tp # rest) \<subseteq> fst ` set (translate_result s)"
    and "\<And>task rest. worker s \<noteq> Await_task task rest"
  shows "consistent s"
  unfolding consistent_def using assms by blast

lemma consistent_init: "consistent init"
  by (rule consistentI) (simp_all add: init_def)

lemma consistent_queue_update:
  assumes c: "consistent s"
  shows "consistent (s\<lparr>translate_tasks := ts\<rparr>)"
proof (rule consistentI)
  fix i
  assume "i < length (tasks (s\<lparr>translate_tasks := ts\<rparr>))"
    and "snd (tasks (s\<lparr>translate_tasks := ts\<rparr>) ! i) = Running"
  then show "worker (s\<lparr>translate_tasks := ts\<rparr>)
      = Sleep_task (fst (tasks (s\<lparr>translate_tasks := ts\<rparr>) ! i)) i"
    using running_is_awaited [OF c, of i] by simp
next
  fix p task
  assume "worker (s\<lparr>translate_tasks := ts\<rparr>) = Sleep_task p task"
  then show "task < length (tasks (s\<lparr>translate_tasks := ts\<rparr>)) \<and>
      fst (tasks (s\<lparr>translate_tasks := ts\<rparr>) ! task) = p"
    using worker_task_exists [OF c, of p task] by simp
next
  show "distinct (map fst (translate_result (s\<lparr>translate_tasks := ts\<rparr>)))"
    using keys_distinct [OF c] by simp
next
  fix p task t
  assume "(p, task, t) \<in> set (translate_result (s\<lparr>translate_tasks := ts\<rparr>))"
  then show "task < length (tasks (s\<lparr>translate_tasks := ts\<rparr>)) \<and>
      fst (tasks (s\<lparr>translate_tasks := ts\<rparr>) ! task) = p \<and>
      snd (tasks (s\<lparr>translate_tasks := ts\<rparr>) ! task) \<noteq> Running"
    using entry_done [OF c, of p task t] by simp
next
  fix tp rest
  assume "worker (s\<lparr>translate_tasks := ts\<rparr>) = Sleep_reap tp rest"
  then show "distinct (tp # rest) \<and>
      set (tp # rest) \<subseteq> fst ` set (translate_result (s\<lparr>translate_tasks := ts\<rparr>))"
    using reap_keys [OF c, of tp rest] by simp
next
  fix task rest
  show "worker (s\<lparr>translate_tasks := ts\<rparr>) \<noteq> Await_task task rest"
    using never_awaits [OF c, of task rest] by simp
qed

lemma consistent_submit: "consistent s \<Longrightarrow> consistent (step (Submit src) s)"
  by (simp add: consistent_queue_update)

lemma consistent_mark_done:
  assumes c: "consistent s" and lt: "task < length (tasks s)"
  shows "consistent (s\<lparr>tasks := (tasks s)[task := (fst (tasks s ! task), Done out)]\<rparr>)"
    (is "consistent ?s'")
proof (rule consistentI)
  fix i
  assume i: "i < length (tasks ?s')" and r: "snd (tasks ?s' ! i) = Running"
  from i r lt have ne: "i \<noteq> task" by (auto simp: nth_list_update)
  with i r have "snd (tasks s ! i) = Running" "i < length (tasks s)" by simp_all
  with running_is_awaited [OF c, of i] ne show "worker ?s' = Sleep_task (fst (tasks ?s' ! i)) i"
    by simp
next
  fix p tk
  assume "worker ?s' = Sleep_task p tk"
  then have "worker s = Sleep_task p tk" by simp
  from worker_task_exists [OF c this]
  show "tk < length (tasks ?s') \<and> fst (tasks ?s' ! tk) = p"
    by (cases "tk = task") simp_all
next
  show "distinct (map fst (translate_result ?s'))"
    using keys_distinct [OF c] by simp
next
  fix p tk t
  assume "(p, tk, t) \<in> set (translate_result ?s')"
  then have "(p, tk, t) \<in> set (translate_result s)" by simp
  from entry_done [OF c this]
  show "tk < length (tasks ?s') \<and> fst (tasks ?s' ! tk) = p \<and> snd (tasks ?s' ! tk) \<noteq> Running"
    by (cases "tk = task") simp_all
next
  fix tp rest
  assume "worker ?s' = Sleep_reap tp rest"
  then have "worker s = Sleep_reap tp rest" by simp
  from reap_keys [OF c this]
  show "distinct (tp # rest) \<and> set (tp # rest) \<subseteq> fst ` set (translate_result ?s')"
    by simp
next
  fix tk rest
  show "worker ?s' \<noteq> Await_task tk rest"
    using never_awaits [OF c, of tk rest] by simp
qed

lemma consistent_task_done: "consistent s \<Longrightarrow> consistent (step (Task_done task out) s)"
  by (simp add: consistent_mark_done task_status_def split: if_splits)

lemma consistent_idle:
  assumes c: "consistent s" and w: "worker s = Sleep_idle"
  shows "consistent (translater_worker_step now s)"
proof (cases "translate_tasks s")
  case Nil
  with c w show ?thesis by (simp add: worker_step_idle_empty)
next
  case (Cons p rest)
  let ?s' = "s\<lparr>translate_tasks := rest, tasks := tasks s @ [(p, Running)],
       worker := Sleep_task p (length (tasks s))\<rparr>"
  have all_done: "snd (tasks s ! i) \<noteq> Running" if "i < length (tasks s)" for i
    using running_is_awaited [OF c that] w by auto
  have "consistent ?s'"
  proof (rule consistentI)
    fix i
    assume i: "i < length (tasks ?s')" and r: "snd (tasks ?s' ! i) = Running"
    have "i = length (tasks s)"
    proof (rule ccontr)
      assume "i \<noteq> length (tasks s)"
      with i have lt: "i < length (tasks s)" by simp
      with r have "snd (tasks s ! i) = Running" by (simp add: nth_append)
      with all_done [OF lt] show False by simp
    qed
    then show "worker ?s' = Sleep_task (fst (tasks ?s' ! i)) i" by simp
  next
    fix q tk
    assume "worker ?s' = Sleep_task q tk"
    then show "tk < length (tasks ?s') \<and> fst (tasks ?s' ! tk) = q" by auto
  next
    show "distinct (map fst (translate_result ?s'))"
      using keys_distinct [OF c] by simp
  next
    fix q tk t
    assume "(q, tk, t) \<in> set (translate_result ?s')"
    then have "(q, tk, t) \<in> set (translate_result s)" by simp
    from entry_done [OF c this]
    show "tk < length (tasks ?s') \<and> fst (tasks ?s' ! tk) = q \<and> snd (tasks ?s' ! tk) \<noteq> Running"
      by (simp add: nth_append)
  next
    fix tp rs
    assume "worker ?s' = Sleep_reap tp rs"
    then show "distinct (tp # rs) \<and> set (tp # rs) \<subseteq> fst ` set (translate_result ?s')"
      by simp
  next
    fix tk rs
    show "worker ?s' \<noteq> Await_task tk rs" by simp
  qed
  with w Cons show ?thesis by (simp add: worker_step_idle_pop)
qed

lemma reap_next_cases:
  "reap_next tps = Sleep_idle \<and> tps = [] \<or> (\<exists>tp rest. tps = tp # rest \<and> reap_next tps = Sleep_reap tp rest)"
  by (cases tps) (simp_all add: reap_next_def)

lemma reap_next_simps:
  "reap_next tps \<noteq> Sleep_task p task"
  "reap_next tps \<noteq> Await_task task rest"
  "reap_next tps \<noteq> Crashed"
  "(reap_next tps = Sleep_reap tp rs) = (tps = tp # rs)"
  "(reap_next tps = Sleep_idle) = (tps = [])"
  by (cases tps; simp add: reap_next_def)+

lemma consistent_reap_pc:
  assumes c: "consistent s"
    and all_done: "\<And>i. i < length (tasks s) \<Longrightarrow> snd (tasks s ! i) \<noteq> Running"
    and d: "distinct (map fst res)"
    and ent: "\<And>p task t. (p, task, t) \<in> set res \<Longrightarrow>
       task < length (tasks s) \<and> fst (tasks s ! task) = p \<and> snd (tasks s ! task) \<noteq> Running"
    and tps: "distinct tps" "set tps \<subseteq> fst ` set res"
  shows "consistent (s\<lparr>translate_result := res, worker := reap_next tps\<rparr>)"
    (is "consistent ?s'")
proof (rule consistentI)
  fix i
  assume "i < length (tasks ?s')" and "snd (tasks ?s' ! i) = Running"
  with all_done [of i] show "worker ?s' = Sleep_task (fst (tasks ?s' ! i)) i" by simp
next
  fix q tk
  assume "worker ?s' = Sleep_task q tk"
  then show "tk < length (tasks ?s') \<and> fst (tasks ?s' ! tk) = q"
    by (simp add: reap_next_simps)
next
  show "distinct (map fst (translate_result ?s'))" using d by simp
next
  fix q tk t
  assume "(q, tk, t) \<in> set (translate_result ?s')"
  then have "(q, tk, t) \<in> set res" by simp
  from ent [OF this]
  show "tk < length (tasks ?s') \<and> fst (tasks ?s' ! tk) = q \<and> snd (tasks ?s' ! tk) \<noteq> Running"
    by simp
next
  fix tp rs
  assume "worker ?s' = Sleep_reap tp rs"
  then have "tps = tp # rs" by (simp add: reap_next_simps)
  with tps show "distinct (tp # rs) \<and> set (tp # rs) \<subseteq> fst ` set (translate_result ?s')"
    by simp
next
  fix tk rs
  show "worker ?s' \<noteq> Await_task tk rs" by (simp add: reap_next_simps)
qed

lemma consistent_publish:
  assumes c: "consistent s" and w: "worker s = Sleep_task p task"
  shows "consistent (translater_worker_step now s)"
proof (cases "task_done s task")
  case False
  with c w show ?thesis by (simp add: worker_step_task_running)
next
  case True
  let ?res = "AList.update p (task, now) (translate_result s)"
  from True have td: "task < length (tasks s)" "snd (tasks s ! task) \<noteq> Running"
    by (simp_all add: task_done_iff)
  have all_done: "snd (tasks s ! i) \<noteq> Running" if "i < length (tasks s)" for i
  proof
    assume r: "snd (tasks s ! i) = Running"
    from running_is_awaited [OF c that r] w have "i = task" by simp
    with r td show False by simp
  qed
  have d: "distinct (map fst ?res)"
    using keys_distinct [OF c] by (rule distinct_update)
  have ent: "tk < length (tasks s) \<and> fst (tasks s ! tk) = q \<and> snd (tasks s ! tk) \<noteq> Running"
    if "(q, tk, t) \<in> set ?res" for q tk t
  proof -
    from that set_alist_update [of p "(task, now)" "translate_result s"]
    have "(q, tk, t) = (p, task, now) \<or> (q, tk, t) \<in> set (translate_result s)" by auto
    then show ?thesis
    proof
      assume "(q, tk, t) = (p, task, now)"
      with td worker_task_exists [OF c w] show ?thesis by simp
    next
      assume "(q, tk, t) \<in> set (translate_result s)"
      then show ?thesis by (rule entry_done [OF c])
    qed
  qed
  have "consistent (s\<lparr>translate_result := ?res, worker := reap_next (timeout_photos ?res now)\<rparr>)"
    using c all_done d ent timeout_photos_distinct [OF d] timeout_photos_subset
    by (rule consistent_reap_pc)
  with w True show ?thesis by (simp add: worker_step_task_publish)
qed

lemma keys_delete: "fst ` set (AList.delete k al) = fst ` set al - {k}"
  by (induction al) auto

lemma consistent_reap:
  assumes c: "consistent s" and w: "worker s = Sleep_reap tp rest"
  shows "consistent (translater_worker_step now s)"
proof -
  from reap_keys [OF c w] have rk: "tp \<notin> set rest" "distinct rest"
    "tp \<in> fst ` set (translate_result s)" "set rest \<subseteq> fst ` set (translate_result s)"
    by simp_all
  from rk(3) obtain task t where m: "map_of (translate_result s) tp = Some (task, t)"
    by (cases "map_of (translate_result s) tp") (auto simp: map_of_eq_None_iff)
  then have mem: "(tp, task, t) \<in> set (translate_result s)" by (rule map_of_SomeD)
  from entry_done [OF c mem] have dn: "task_done s task" by (simp add: task_done_iff)
  let ?res = "AList.delete tp (translate_result s)"
  have all_done: "snd (tasks s ! i) \<noteq> Running" if "i < length (tasks s)" for i
  proof
    assume "snd (tasks s ! i) = Running"
    from running_is_awaited [OF c that this] w show False by simp
  qed
  have d: "distinct (map fst ?res)"
    using keys_distinct [OF c] by (rule distinct_delete)
  have ent: "tk < length (tasks s) \<and> fst (tasks s ! tk) = q \<and> snd (tasks s ! tk) \<noteq> Running"
    if "(q, tk, t') \<in> set ?res" for q tk t'
  proof -
    from that have "(q, tk, t') \<in> set (translate_result s)" by (simp add: AList.delete_eq)
    then show ?thesis by (rule entry_done [OF c])
  qed
  have sub: "set rest \<subseteq> fst ` set ?res"
    using rk by (auto simp: keys_delete)
  have "consistent (s\<lparr>translate_result := ?res, worker := reap_next rest\<rparr>)"
    using c all_done d ent rk(2) sub by (rule consistent_reap_pc)
  with w m dn show ?thesis by (simp add: worker_step_reap_delete)
qed

lemma consistent_worker:
  assumes c: "consistent s"
  shows "consistent (translater_worker_step now s)"
proof (cases "worker s")
  case Sleep_idle
  with c show ?thesis by (rule consistent_idle)
next
  case (Sleep_task p task)
  with c show ?thesis by (rule consistent_publish)
next
  case (Sleep_reap tp rest)
  with c show ?thesis by (rule consistent_reap)
next
  case (Await_task task rest)
  with never_awaits [OF c, of task rest] show ?thesis by simp
next
  case Crashed
  with c show ?thesis by (simp add: worker_step_crashed)
qed

lemma consistent_step:
  assumes "consistent s"
  shows "consistent (step e s)"
proof (cases e)
  case (Submit src)
  with assms consistent_submit [of s src] show ?thesis by simp
next
  case (Worker now)
  with assms consistent_worker [of s now] show ?thesis by simp
next
  case (Task_done task out)
  with assms consistent_task_done [of s task out] show ?thesis by simp
qed

lemma consistent_exec: "consistent s \<Longrightarrow> consistent (exec evs s)"
  by (induction evs arbitrary: s) (simp_all add: consistent_step)

lemma consistent_reachable: "consistent (exec evs init)"
  by (rule consistent_exec [OF consistent_init])

lemma exec_append: "exec (es @ fs) s = exec fs (exec es s)"
  by (induction es arbitrary: s) simp_all

lemma step_fifo:
  "dispatched (step e s) @ translate_tasks (step e s)
     = dispatched s @ translate_tasks s @ submitted [e]"
proof (cases e)
  case (Submit src)
  then show ?thesis by (simp add: dispatched_def add_translate_task_def)
next
  case (Worker now)
  then show ?thesis
    by (simp add: dispatched_def translater_worker_step_def Let_def
        split: worker_pc.split list.split option.split)
next
  case (Task_done task out)
  then show ?thesis by (simp add: dispatched_def map_fst_mark_done)
qed

lemma exec_fifo:
  "dispatched (exec evs s) @ translate_tasks (exec evs s)
     = dispatched s @ translate_tasks s @ submitted evs"
proof (induction evs arbitrary: s)
  case Nil
  then show ?case by simp
next
  case (Cons e es)
  have "submitted (e # es) = submitted [e] @ submitted es"
    by (cases e) simp_all
  with Cons show ?case by (simp add: step_fifo)
qed

lemma worker_pops_head:
  assumes "worker s = Sleep_idle" "translate_tasks s = p # rest"
  shows "dispatched (translater_worker_step now s) = dispatched s @ [p]"
    and "translate_tasks (translater_worker_step now s) = rest"
  using assms by (simp_all add: translater_worker_step_def dispatched_def)

subsection \<open>Enqueueing\<close>

text \<open>
  C8. \<^verbatim>\<open>add_translate_task\<close> appends the path at the tail and returns the length the
  list had before, which is the index at which the path now stands; when it returns 0
  the path is the head of the list, the element the worker takes next.
\<close>

theorem C8_enqueue_index:
  "fst (add_translate_task src ts) = ts @ [src] \<and>
   snd (add_translate_task src ts) = int (length ts) \<and>
   fst (add_translate_task src ts) ! nat (snd (add_translate_task src ts)) = src \<and>
   (snd (add_translate_task src ts) = 0 \<longrightarrow> hd (fst (add_translate_task src ts)) = src)"
  by (simp add: add_translate_task_def)

theorem C8_enqueue_index_witness:
  "snd (add_translate_task ''saved/a_1_2.jpg'' []) = 0 \<and>
   hd (fst (add_translate_task ''saved/a_1_2.jpg'' [])) = ''saved/a_1_2.jpg'' \<and>
   add_translate_task ''c'' [''a'', ''b''] = ([''a'', ''b'', ''c''], 2)"
  using C8_enqueue_index [of "''saved/a_1_2.jpg''" "[]"] C8_enqueue_index [of "''c''" "[''a'', ''b'']"]
  by (simp add: add_translate_task_def)

subsection \<open>The position loop of the caller\<close>

lemma translate_task_index_None:
  "translate_task_index src ts = None \<longleftrightarrow> src \<notin> set ts"
  by (induction ts) (auto simp: translate_task_index_def split: sum.splits py_error.splits)

text \<open>
  C7, as stated, fails: a pass of the loop that finds the path still in the list, at
  index 0, sends the "processing has started" text and leaves the loop, although
  \<^verbatim>\<open>translate_task_index\<close> did not return None.
\<close>

theorem C7_counterexample:
  "translate_task_index ''b'' [''b''] = Some 0 \<and>
   run_poll_position 1 ''b'' [''b''] = Break_started"
  by (simp add: run_poll_position_def translate_task_index_def)

text \<open>
  C7, amended. While \<^verbatim>\<open>idx\<close> is not 0, a pass of the loop leaves it with the "started"
  text exactly when \<^verbatim>\<open>translate_task_index\<close> returns None or 0; it reports progress
  exactly when the index returned is neither 0 nor the last one seen (so in particular
  when it is smaller and not 0); and it sends nothing exactly when the index returned is
  the last one seen.
\<close>

theorem C7_poll_position:
  assumes "idx \<noteq> 0"
  shows "(run_poll_position idx src ts = Break_started \<longleftrightarrow>
            translate_task_index src ts = None \<or> translate_task_index src ts = Some 0) \<and>
         (run_poll_position idx src ts = Progress n \<longleftrightarrow>
            translate_task_index src ts = Some n \<and> n \<noteq> 0 \<and> n \<noteq> idx) \<and>
         (run_poll_position idx src ts = Unchanged \<longleftrightarrow> translate_task_index src ts = Some idx) \<and>
         run_poll_position idx src ts \<noteq> Loop_exit"
  using assms by (auto simp: run_poll_position_def split: option.splits)

theorem C7_poll_position_witness:
  "(2::int) \<noteq> 0 \<and>
   run_poll_position 2 ''c'' [''b'', ''c''] = Progress 1 \<and>
   translate_task_index ''c'' [''b'', ''c''] = Some 1 \<and>
   run_poll_position 2 ''c'' [''c''] = Break_started \<and>
   run_poll_position 2 ''c'' [] = Break_started \<and>
   run_poll_position 2 ''c'' [''a'', ''b'', ''c''] = Unchanged"
  using C7_poll_position [of 2 "''c''" "[''b'', ''c'']" 1]
  by (simp add: run_poll_position_def translate_task_index_def)

subsection \<open>The size check of \<^verbatim>\<open>save_photo\<close>\<close>

lemma size_too_big_iff: "size_too_big fs \<longleftrightarrow> (\<exists>n. fs = Some n \<and> 1048576 < n)"
  by (cases fs) (auto simp: size_too_big_def)

lemma save_photo_accepts:
  assumes "from_user msg = Some sender" "photo msg \<noteq> []"
    and "get_file (file_id (last (photo msg))) = Some file"
    and "\<not> size_too_big (file_size file)"
  shows "save_photo msg get_file ok =
     (if ok then Inr (save_path (username sender) (chat_id msg) (message_id msg))
      else Inl UnknownError)"
  using assms by (simp add: save_photo_def)

lemma save_photo_too_big_iff:
  "save_photo msg get_file ok = Inl (PhotoTooBig n) \<longleftrightarrow>
     from_user msg \<noteq> None \<and> photo msg \<noteq> [] \<and>
     (\<exists>file. get_file (file_id (last (photo msg))) = Some file \<and> file_size file = Some n) \<and>
     1048576 < n"
  by (auto simp: save_photo_def Let_def size_too_big_iff split: option.splits if_splits)

text \<open>
  C10. \<^verbatim>\<open>save_photo\<close> raises PhotoTooBig exactly when the message has a sender and a
  photo, \<^verbatim>\<open>get_file\<close> returned a file, and the file's size is an integer above 1048576.
  Then \<^verbatim>\<open>run\<close> answers "too big" and returns with the pending list untouched. A file
  whose size is None, 0 or at most 1048576 is downloaded, and once it is on disk
  \<^verbatim>\<open>run\<close> appends its path to the pending list.
\<close>

theorem C10_photo_too_big:
  "(save_photo msg get_file ok = Inl (PhotoTooBig n) \<longleftrightarrow>
      from_user msg \<noteq> None \<and> photo msg \<noteq> [] \<and>
      (\<exists>file. get_file (file_id (last (photo msg))) = Some file \<and> file_size file = Some n) \<and>
      1048576 < n) \<and>
   (save_photo msg get_file ok = Inl (PhotoTooBig n) \<longrightarrow>
      run_submit (save_photo msg get_file ok) file_exists ts
        = ([Reply_message Too_big], ts, Returned)) \<and>
   (from_user msg = Some sender \<and> photo msg \<noteq> [] \<and>
    get_file (file_id (last (photo msg))) = Some file \<and>
    (file_size file = None \<or> (\<exists>k. file_size file = Some k \<and> k \<le> 1048576)) \<longrightarrow>
      save_photo msg get_file True
        = Inr (save_path (username sender) (chat_id msg) (message_id msg)) \<and>
      fst (snd (run_submit (save_photo msg get_file True) True ts))
        = ts @ [save_path (username sender) (chat_id msg) (message_id msg)])"
proof (intro conjI impI)
  show "save_photo msg get_file ok = Inl (PhotoTooBig n) \<longleftrightarrow>
      from_user msg \<noteq> None \<and> photo msg \<noteq> [] \<and>
      (\<exists>file. get_file (file_id (last (photo msg))) = Some file \<and> file_size file = Some n) \<and>
      1048576 < n"
    by (rule save_photo_too_big_iff)
next
  assume "save_photo msg get_file ok = Inl (PhotoTooBig n)"
  then show "run_submit (save_photo msg get_file ok) file_exists ts
      = ([Reply_message Too_big], ts, Returned)"
    by (simp add: run_submit_def)
next
  assume a: "from_user msg = Some sender \<and> photo msg \<noteq> [] \<and>
    get_file (file_id (last (photo msg))) = Some file \<and>
    (file_size file = None \<or> (\<exists>k. file_size file = Some k \<and> k \<le> 1048576))"
  then have "\<not> size_too_big (file_size file)" by (auto simp: size_too_big_iff)
  with a have sp: "save_photo msg get_file True
      = Inr (save_path (username sender) (chat_id msg) (message_id msg))"
    using save_photo_accepts [of msg sender get_file "file" True] by simp
  then show "save_photo msg get_file True
      = Inr (save_path (username sender) (chat_id msg) (message_id msg))" .
  from sp show "fst (snd (run_submit (save_photo msg get_file True) True ts))
      = ts @ [save_path (username sender) (chat_id msg) (message_id msg)]"
    by (simp add: run_submit_def add_translate_task_def)
qed

theorem C10_photo_too_big_witness:
  "save_photo \<lparr>from_user = Some \<lparr>username = Some ''bob''\<rparr>, message_id = 7, chat_id = 120,
                photo = [\<lparr>file_id = ''small''\<rparr>, \<lparr>file_id = ''large''\<rparr>]\<rparr>
      (\<lambda>f. Some \<lparr>file_size = Some 1048577\<rparr>) True = Inl (PhotoTooBig 1048577) \<and>
   run_submit (save_photo \<lparr>from_user = Some \<lparr>username = Some ''bob''\<rparr>, message_id = 7,
                  chat_id = 120, photo = [\<lparr>file_id = ''small''\<rparr>, \<lparr>file_id = ''large''\<rparr>]\<rparr>
      (\<lambda>f. Some \<lparr>file_size = Some 1048577\<rparr>) True) True [''saved/x_1_1.jpg'']
     = ([Reply_message Too_big], [''saved/x_1_1.jpg''], Returned) \<and>
   save_photo \<lparr>from_user = Some \<lparr>username = Some ''bob''\<rparr>, message_id = 7, chat_id = 120,
                photo = [\<lparr>file_id = ''small''\<rparr>, \<lparr>file_id = ''large''\<rparr>]\<rparr>
      (\<lambda>f. Some \<lparr>file_size = Some 1048576\<rparr>) True = Inr ''saved/bob_120_7.jpg'' \<and>
   fst (snd (run_submit (save_photo \<lparr>from_user = Some \<lparr>username = Some ''bob''\<rparr>,
                  message_id = 7, chat_id = 120,
                  photo = [\<lparr>file_id = ''small''\<rparr>, \<lparr>file_id = ''large''\<rparr>]\<rparr>
      (\<lambda>f. Some \<lparr>file_size = Some 1048576\<rparr>) True) True [''saved/x_1_1.jpg'']))
     = [''saved/x_1_1.jpg'', ''saved/bob_120_7.jpg'']"
  using C10_photo_too_big [of
      "\<lparr>from_user = Some \<lparr>username = Some ''bob''\<rparr>, message_id = 7, chat_id = 120,
        photo = [\<lparr>file_id = ''small''\<rparr>, \<lparr>file_id = ''large''\<rparr>]\<rparr>"
      "\<lambda>f. Some \<lparr>file_size = Some 1048577\<rparr>" True 1048577 True "[''saved/x_1_1.jpg'']"]
    C10_photo_too_big [of
      "\<lparr>from_user = Some \<lparr>username = Some ''bob''\<rparr>, message_id = 7, chat_id = 120,
        photo = [\<lparr>file_id = ''small''\<rparr>, \<lparr>file_id = ''large''\<rparr>]\<rparr>"
      "\<lambda>f. Some \<lparr>file_size = Some 1048576\<rparr>" True 0 True "[''saved/x_1_1.jpg'']"
      "\<lparr>username = Some ''bob''\<rparr>" "\<lparr>file_size = Some 1048576\<rparr>"]
  by (simp add: save_photo_def size_too_big_def run_submit_def add_translate_task_def
      save_path_def str_username_def str_int_def)

subsection \<open>One backend call at a time\<close>

lemma length_le_one:
  assumes "distinct xs" and "\<And>x y. x \<in> set xs \<Longrightarrow> y \<in> set xs \<Longrightarrow> x = y"
  shows "length xs \<le> 1"
proof (cases xs)
  case Nil
  then show ?thesis by simp
next
  case (Cons x ys)
  show ?thesis
  proof (cases ys)
    case Nil
    with Cons show ?thesis by simp
  next
    case (Cons y zs)
    with \<open>xs = x # ys\<close> assms(1) have "x \<noteq> y" by simp
    moreover from Cons \<open>xs = x # ys\<close> assms(2) [of x y] have "x = y" by simp
    ultimately show ?thesis by simp
  qed
qed

lemma in_flight_awaited:
  assumes c: "consistent s" and i: "i \<in> set (in_flight s)"
  shows "worker s = Sleep_task (fst (tasks s ! i)) i" and "\<not> task_done s i"
proof -
  from i have lt: "i < length (tasks s)" and r: "snd (tasks s ! i) = Running"
    by (simp_all add: in_flight_def)
  from running_is_awaited [OF c lt r] show "worker s = Sleep_task (fst (tasks s ! i)) i" .
  from r show "\<not> task_done s i" by (simp add: task_done_iff)
qed

lemma in_flight_le_one:
  assumes c: "consistent s"
  shows "length (in_flight s) \<le> 1"
proof (rule length_le_one)
  show "distinct (in_flight s)" by (simp add: in_flight_def)
next
  fix x y
  assume x: "x \<in> set (in_flight s)" and y: "y \<in> set (in_flight s)"
  from in_flight_awaited(1) [OF c x] in_flight_awaited(1) [OF c y]
  have "Sleep_task (fst (tasks s ! x)) x = Sleep_task (fst (tasks s ! y)) y" by simp
  then show "x = y" by simp
qed

lemma in_flight_blocks_worker:
  assumes c: "consistent s" and ne: "in_flight s \<noteq> []"
  shows "translater_worker_step now s = s"
proof -
  from ne obtain i where i: "i \<in> set (in_flight s)" by (cases "in_flight s") auto
  from in_flight_awaited [OF c i] show ?thesis by (simp add: worker_step_task_running)
qed

text \<open>
  C5. In every state a run reaches, at most one task of the task table is running; and
  while one is running, a wake-up of the worker changes nothing: it takes no path off
  the pending list and starts no call.
\<close>

theorem C5_one_call_in_flight:
  "length (in_flight (exec evs init)) \<le> 1 \<and>
   (in_flight (exec evs init) \<noteq> [] \<longrightarrow>
      translater_worker_step now (exec evs init) = exec evs init)"
  using in_flight_le_one [OF consistent_reachable, of evs]
    in_flight_blocks_worker [OF consistent_reachable, of evs now]
  by blast

theorem C5_one_call_in_flight_witness:
  "in_flight (exec [Submit ''a'', Submit ''b'', Worker 0] init) = [0] \<and>
   translate_tasks (exec [Submit ''a'', Submit ''b'', Worker 0] init) = [''b''] \<and>
   translater_worker_step 1 (exec [Submit ''a'', Submit ''b'', Worker 0] init)
     = exec [Submit ''a'', Submit ''b'', Worker 0] init"
  using C5_one_call_in_flight [of "[Submit ''a'', Submit ''b'', Worker 0]" 1]
  by (simp add: init_def in_flight_def add_translate_task_def translater_worker_step_def)

subsection \<open>Positions in the pending list\<close>

lemma translate_task_index_Cons:
  "translate_task_index src (x # ts) =
     (if x = src then Some 0 else map_option (\<lambda>i. i + 1) (translate_task_index src ts))"
  by (simp add: translate_task_index_def split: sum.splits py_error.splits)

lemma translate_task_index_Nil: "translate_task_index src [] = None"
  by (simp add: translate_task_index_def)

lemma translate_task_index_nonneg: "translate_task_index src ts = Some i \<Longrightarrow> 0 \<le> i"
proof (induction ts arbitrary: i)
  case Nil
  then show ?case by (simp add: translate_task_index_Nil)
next
  case (Cons x ts)
  then show ?case
    by (cases "translate_task_index src ts") (auto simp: translate_task_index_Cons split: if_splits)
qed

lemma translate_task_index_append:
  "translate_task_index src ts = Some i \<Longrightarrow> translate_task_index src (ts @ [q]) = Some i"
proof (induction ts arbitrary: i)
  case Nil
  then show ?case by (simp add: translate_task_index_Nil)
next
  case (Cons x ts)
  then show ?case
    by (cases "translate_task_index src ts") (auto simp: translate_task_index_Cons split: if_splits)
qed

lemma translate_task_index_tl:
  assumes "translate_task_index src ts = Some i" and "0 < i"
  shows "translate_task_index src (tl ts) = Some (i - 1)"
proof (cases ts)
  case Nil
  with assms show ?thesis by (simp add: translate_task_index_Nil)
next
  case (Cons x rest)
  with assms show ?thesis
    by (cases "translate_task_index src rest") (auto simp: translate_task_index_Cons split: if_splits)
qed

lemma translate_task_index_head:
  assumes "translate_task_index src ts = Some 0"
  shows "ts \<noteq> [] \<and> hd ts = src"
proof (cases ts)
  case Nil
  with assms show ?thesis by (simp add: translate_task_index_Nil)
next
  case (Cons x rest)
  show ?thesis
  proof (cases "x = src")
    case True
    with Cons show ?thesis by simp
  next
    case False
    with assms Cons obtain j where "translate_task_index src rest = Some j" "j + 1 = 0"
      by (cases "translate_task_index src rest") (auto simp: translate_task_index_Cons)
    with translate_task_index_nonneg [of src rest j] show ?thesis by simp
  qed
qed

lemma step_queue:
  "translate_tasks (step e s) =
     (if dispatches e s then tl (translate_tasks s) else translate_tasks s @ submitted [e])"
proof (cases e)
  case (Submit src)
  then show ?thesis by (simp add: dispatches_def add_translate_task_def)
next
  case (Task_done task out)
  then show ?thesis by (simp add: dispatches_def)
next
  case (Worker now)
  show ?thesis
  proof (cases "worker s")
    case Sleep_idle
    with Worker show ?thesis
      by (cases "translate_tasks s")
        (simp_all add: dispatches_def worker_step_idle_empty worker_step_idle_pop)
  next
    case (Sleep_task p task)
    with Worker show ?thesis
      by (cases "task_done s task")
        (simp_all add: dispatches_def worker_step_task_running worker_step_task_publish)
  next
    case (Sleep_reap tp rest)
    with Worker show ?thesis
      by (cases "map_of (translate_result s) tp")
        (auto simp: dispatches_def worker_step_reap_missing worker_step_reap_delete)
  next
    case (Await_task task rest)
    with Worker show ?thesis by (simp add: dispatches_def worker_step_await)
  next
    case Crashed
    with Worker show ?thesis by (simp add: dispatches_def worker_step_crashed)
  qed
qed

lemma dispatches_head:
  assumes "dispatches e s"
  shows "dispatched (step e s) = dispatched s @ [hd (translate_tasks s)]"
proof -
  from assms obtain now where e: "e = Worker now" and w: "worker s = Sleep_idle"
    and q: "translate_tasks s \<noteq> []"
    by (cases e) (simp_all add: dispatches_def)
  from q obtain p rest where "translate_tasks s = p # rest" by (cases "translate_tasks s") auto
  with e w worker_pops_head [of s p rest now] show ?thesis by simp
qed

text \<open>
  C6. Let the path \<open>src\<close> stand at index \<open>i\<close> of the pending list. A step in which the
  worker takes no path off the list (a submission by any caller, the end of a task, any
  other wake-up of the worker) leaves \<open>src\<close> at index \<open>i\<close>. A step in which the worker
  takes a path off the list takes the head: if \<open>i\<close> is positive, \<open>src\<close> then stands at
  \<open>i - 1\<close>; if \<open>i\<close> is 0, \<open>src\<close> is the path the backend is called on, and with distinct
  paths in the list its index is then None. The list changes in no other way than by
  losing its head or gaining a last element.
\<close>

theorem C6_position_steps:
  assumes "translate_task_index src (translate_tasks s) = Some i"
  shows "(\<not> dispatches e s \<longrightarrow>
            translate_task_index src (translate_tasks (step e s)) = Some i) \<and>
         (dispatches e s \<and> 0 < i \<longrightarrow>
            translate_task_index src (translate_tasks (step e s)) = Some (i - 1)) \<and>
         (dispatches e s \<and> i = 0 \<longrightarrow>
            dispatched (step e s) = dispatched s @ [src] \<and>
            (distinct (translate_tasks s) \<longrightarrow>
               translate_task_index src (translate_tasks (step e s)) = None)) \<and>
         translate_tasks (step e s) =
           (if dispatches e s then tl (translate_tasks s) else translate_tasks s @ submitted [e])"
proof (intro conjI impI)
  assume "\<not> dispatches e s"
  then have q: "translate_tasks (step e s) = translate_tasks s @ submitted [e]"
    by (simp add: step_queue)
  show "translate_task_index src (translate_tasks (step e s)) = Some i"
  proof (cases e)
    case (Submit q')
    with q assms show ?thesis by (simp add: translate_task_index_append)
  next
    case (Worker now)
    with q assms show ?thesis by simp
  next
    case (Task_done task out)
    with q assms show ?thesis by simp
  qed
next
  assume "dispatches e s \<and> 0 < i"
  with assms show "translate_task_index src (translate_tasks (step e s)) = Some (i - 1)"
    by (simp add: step_queue translate_task_index_tl)
next
  assume a: "dispatches e s \<and> i = 0"
  with assms translate_task_index_head [of src "translate_tasks s"]
  have h: "translate_tasks s \<noteq> []" "hd (translate_tasks s) = src" by simp_all
  from a h show "dispatched (step e s) = dispatched s @ [src]"
    by (simp add: dispatches_head)
  assume "distinct (translate_tasks s)"
  with h have "src \<notin> set (tl (translate_tasks s))"
    by (cases "translate_tasks s") auto
  with a show "translate_task_index src (translate_tasks (step e s)) = None"
    by (simp add: step_queue translate_task_index_None)
next
  show "translate_tasks (step e s) =
      (if dispatches e s then tl (translate_tasks s) else translate_tasks s @ submitted [e])"
    by (rule step_queue)
qed

theorem C6_position_steps_witness:
  "translate_task_index ''c'' (translate_tasks (exec [Submit ''a'', Submit ''b'', Submit ''c''] init))
     = Some 2 \<and>
   dispatches (Worker 0) (exec [Submit ''a'', Submit ''b'', Submit ''c''] init) \<and>
   translate_task_index ''c''
     (translate_tasks (step (Worker 0) (exec [Submit ''a'', Submit ''b'', Submit ''c''] init)))
     = Some 1 \<and>
   \<not> dispatches (Submit ''d'') (exec [Submit ''a'', Submit ''b'', Submit ''c''] init) \<and>
   translate_task_index ''c''
     (translate_tasks (step (Submit ''d'') (exec [Submit ''a'', Submit ''b'', Submit ''c''] init)))
     = Some 2 \<and>
   translate_task_index ''a'' (translate_tasks (exec [Submit ''a'', Submit ''b'', Submit ''c''] init))
     = Some 0 \<and>
   distinct (translate_tasks (exec [Submit ''a'', Submit ''b'', Submit ''c''] init)) \<and>
   translate_task_index ''a''
     (translate_tasks (step (Worker 0) (exec [Submit ''a'', Submit ''b'', Submit ''c''] init)))
     = None"
  using C6_position_steps [of "''c''" "exec [Submit ''a'', Submit ''b'', Submit ''c''] init" 2 "Worker 0"]
    C6_position_steps [of "''c''" "exec [Submit ''a'', Submit ''b'', Submit ''c''] init" 2 "Submit ''d''"]
    C6_position_steps [of "''a''" "exec [Submit ''a'', Submit ''b'', Submit ''c''] init" 0 "Worker 0"]
  by (simp add: init_def add_translate_task_def dispatches_def translater_worker_step_def
      translate_task_index_def)

subsection \<open>A path is in one place at a time\<close>

lemma separatedD:
  assumes "separated s"
  shows queue_distinct: "distinct (translate_tasks s)"
    and queue_not_result: "p \<in> set (translate_tasks s) \<Longrightarrow> p \<notin> fst ` set (translate_result s)"
    and translated_nowhere:
      "being_translated s = Some p \<Longrightarrow>
       p \<notin> set (translate_tasks s) \<and> p \<notin> fst ` set (translate_result s)"
  using assms unfolding separated_def by blast+

lemma separatedI:
  assumes "distinct (translate_tasks s)"
    and "\<And>p. p \<in> set (translate_tasks s) \<Longrightarrow> p \<notin> fst ` set (translate_result s)"
    and "\<And>p. being_translated s = Some p \<Longrightarrow>
       p \<notin> set (translate_tasks s) \<and> p \<notin> fst ` set (translate_result s)"
  shows "separated s"
  unfolding separated_def using assms by blast

lemma being_translated_simps:
  "being_translated (s\<lparr>worker := Sleep_task p task\<rparr>) = Some p"
  "being_translated (s\<lparr>worker := reap_next tps\<rparr>) = None"
  "being_translated (s\<lparr>worker := Crashed\<rparr>) = None"
  "being_translated (s\<lparr>worker := Await_task task rest\<rparr>) = None"
  "being_translated (s\<lparr>translate_tasks := ts\<rparr>) = being_translated s"
  "being_translated (s\<lparr>translate_result := res\<rparr>) = being_translated s"
  "being_translated (s\<lparr>tasks := tb\<rparr>) = being_translated s"
  by (cases tps; simp add: being_translated_def reap_next_def)+

lemma separated_init: "separated init"
  by (rule separatedI) (simp_all add: init_def being_translated_def)

lemma keys_update: "fst ` set (AList.update k v al) = insert k (fst ` set al)"
  using dom_update [of k v al] by simp

lemma separated_submit:
  assumes sep: "separated s" and f: "fresh (Submit src) s"
  shows "separated (step (Submit src) s)"
proof -
  from f have a: "src \<notin> set (translate_tasks s)" "src \<notin> fst ` set (translate_result s)"
    "being_translated s \<noteq> Some src"
    by (simp_all add: fresh_def map_of_eq_None_iff)
  have "separated (s\<lparr>translate_tasks := translate_tasks s @ [src]\<rparr>)"
  proof (rule separatedI)
    show "distinct (translate_tasks (s\<lparr>translate_tasks := translate_tasks s @ [src]\<rparr>))"
      using queue_distinct [OF sep] a(1) by simp
  next
    fix p
    assume "p \<in> set (translate_tasks (s\<lparr>translate_tasks := translate_tasks s @ [src]\<rparr>))"
    then have "p \<in> set (translate_tasks s) \<or> p = src" by auto
    then show "p \<notin> fst ` set (translate_result (s\<lparr>translate_tasks := translate_tasks s @ [src]\<rparr>))"
      using queue_not_result [OF sep, of p] a(2) by auto
  next
    fix p
    assume "being_translated (s\<lparr>translate_tasks := translate_tasks s @ [src]\<rparr>) = Some p"
    then have b: "being_translated s = Some p" by (simp add: being_translated_simps)
    with a(3) have "p \<noteq> src" by auto
    with translated_nowhere [OF sep b]
    show "p \<notin> set (translate_tasks (s\<lparr>translate_tasks := translate_tasks s @ [src]\<rparr>)) \<and>
       p \<notin> fst ` set (translate_result (s\<lparr>translate_tasks := translate_tasks s @ [src]\<rparr>))"
      by simp
  qed
  then show ?thesis by (simp add: add_translate_task_def)
qed

lemma separated_task_done:
  assumes sep: "separated s"
  shows "separated (step (Task_done task out) s)"
proof (cases "task_status s task = Some Running")
  case False
  with sep show ?thesis by simp
next
  case True
  let ?s' = "s\<lparr>tasks := (tasks s)[task := (fst (tasks s ! task), Done out)]\<rparr>"
  have "separated ?s'"
  proof (rule separatedI)
    show "distinct (translate_tasks ?s')" using queue_distinct [OF sep] by simp
  next
    fix p
    assume "p \<in> set (translate_tasks ?s')"
    then show "p \<notin> fst ` set (translate_result ?s')"
      using queue_not_result [OF sep, of p] by simp
  next
    fix p
    assume "being_translated ?s' = Some p"
    then have "being_translated s = Some p" by (simp add: being_translated_simps)
    from translated_nowhere [OF sep this]
    show "p \<notin> set (translate_tasks ?s') \<and> p \<notin> fst ` set (translate_result ?s')" by simp
  qed
  with True show ?thesis by simp
qed

lemma separated_worker:
  assumes sep: "separated s"
  shows "separated (translater_worker_step now s)"
proof (cases "worker s")
  case Sleep_idle
  show ?thesis
  proof (cases "translate_tasks s")
    case Nil
    with Sleep_idle sep show ?thesis by (simp add: worker_step_idle_empty)
  next
    case (Cons p rest)
    let ?s' = "s\<lparr>translate_tasks := rest, tasks := tasks s @ [(p, Running)],
         worker := Sleep_task p (length (tasks s))\<rparr>"
    from queue_distinct [OF sep] Cons have d: "distinct rest" "p \<notin> set rest" by simp_all
    have "separated ?s'"
    proof (rule separatedI)
      show "distinct (translate_tasks ?s')" using d by simp
    next
      fix q
      assume "q \<in> set (translate_tasks ?s')"
      then have "q \<in> set (translate_tasks s)" using Cons by simp
      from queue_not_result [OF sep this] show "q \<notin> fst ` set (translate_result ?s')" by simp
    next
      fix q
      assume "being_translated ?s' = Some q"
      then have "q = p" by (simp add: being_translated_def)
      moreover have "p \<in> set (translate_tasks s)" using Cons by simp
      from queue_not_result [OF sep this] have "p \<notin> fst ` set (translate_result s)" .
      ultimately show "q \<notin> set (translate_tasks ?s') \<and> q \<notin> fst ` set (translate_result ?s')"
        using d by simp
    qed
    with Sleep_idle Cons show ?thesis by (simp add: worker_step_idle_pop)
  qed
next
  case (Sleep_task p task)
  show ?thesis
  proof (cases "task_done s task")
    case False
    with Sleep_task sep show ?thesis by (simp add: worker_step_task_running)
  next
    case True
    let ?res = "AList.update p (task, now) (translate_result s)"
    let ?s' = "s\<lparr>translate_result := ?res, worker := reap_next (timeout_photos ?res now)\<rparr>"
    from Sleep_task have "being_translated s = Some p" by (simp add: being_translated_def)
    from translated_nowhere [OF sep this] have pn: "p \<notin> set (translate_tasks s)" by simp
    have "separated ?s'"
    proof (rule separatedI)
      show "distinct (translate_tasks ?s')" using queue_distinct [OF sep] by simp
    next
      fix q
      assume "q \<in> set (translate_tasks ?s')"
      then have q: "q \<in> set (translate_tasks s)" by simp
      with pn have "q \<noteq> p" by auto
      with queue_not_result [OF sep q] show "q \<notin> fst ` set (translate_result ?s')"
        by (simp add: keys_update)
    next
      fix q
      assume "being_translated ?s' = Some q"
      then have False
        by (cases "timeout_photos ?res now") (simp_all add: being_translated_def reap_next_def)
      then show "q \<notin> set (translate_tasks ?s') \<and> q \<notin> fst ` set (translate_result ?s')" ..
    qed
    with Sleep_task True show ?thesis by (simp add: worker_step_task_publish)
  qed
next
  case (Sleep_reap tp rest)
  have nb: "being_translated s = None" using Sleep_reap by (simp add: being_translated_def)
  show ?thesis
  proof (cases "map_of (translate_result s) tp")
    case None
    have "separated (s\<lparr>worker := Crashed\<rparr>)"
    proof (rule separatedI)
      show "distinct (translate_tasks (s\<lparr>worker := Crashed\<rparr>))"
        using queue_distinct [OF sep] by simp
    next
      fix q
      assume "q \<in> set (translate_tasks (s\<lparr>worker := Crashed\<rparr>))"
      then show "q \<notin> fst ` set (translate_result (s\<lparr>worker := Crashed\<rparr>))"
        using queue_not_result [OF sep, of q] by simp
    next
      fix q
      assume "being_translated (s\<lparr>worker := Crashed\<rparr>) = Some q"
      then have False by (simp add: being_translated_def)
      then show "q \<notin> set (translate_tasks (s\<lparr>worker := Crashed\<rparr>)) \<and>
         q \<notin> fst ` set (translate_result (s\<lparr>worker := Crashed\<rparr>))" ..
    qed
    with Sleep_reap None show ?thesis by (simp add: worker_step_reap_missing)
  next
    case (Some e)
    obtain task t where e: "e = (task, t)" by (cases e)
    let ?s' = "s\<lparr>translate_result := AList.delete tp (translate_result s),
         worker := (if task_done s task then reap_next rest else Await_task task rest)\<rparr>"
    have "separated ?s'"
    proof (rule separatedI)
      show "distinct (translate_tasks ?s')" using queue_distinct [OF sep] by simp
    next
      fix q
      assume "q \<in> set (translate_tasks ?s')"
      then have "q \<in> set (translate_tasks s)" by simp
      from queue_not_result [OF sep this] show "q \<notin> fst ` set (translate_result ?s')"
        by (simp add: keys_delete)
    next
      fix q
      assume "being_translated ?s' = Some q"
      then have False
        by (cases rest; cases "task_done s task") (simp_all add: being_translated_def reap_next_def)
      then show "q \<notin> set (translate_tasks ?s') \<and> q \<notin> fst ` set (translate_result ?s')" ..
    qed
    with Sleep_reap Some e show ?thesis by (simp add: worker_step_reap_delete)
  qed
next
  case (Await_task task rest)
  show ?thesis
  proof (cases "task_done s task")
    case False
    with Await_task sep show ?thesis by (simp add: worker_step_await)
  next
    case True
    have "separated (s\<lparr>worker := reap_next rest\<rparr>)"
    proof (rule separatedI)
      show "distinct (translate_tasks (s\<lparr>worker := reap_next rest\<rparr>))"
        using queue_distinct [OF sep] by simp
    next
      fix q
      assume "q \<in> set (translate_tasks (s\<lparr>worker := reap_next rest\<rparr>))"
      then show "q \<notin> fst ` set (translate_result (s\<lparr>worker := reap_next rest\<rparr>))"
        using queue_not_result [OF sep, of q] by simp
    next
      fix q
      assume "being_translated (s\<lparr>worker := reap_next rest\<rparr>) = Some q"
      then have False by (cases rest) (simp_all add: being_translated_def reap_next_def)
      then show "q \<notin> set (translate_tasks (s\<lparr>worker := reap_next rest\<rparr>)) \<and>
         q \<notin> fst ` set (translate_result (s\<lparr>worker := reap_next rest\<rparr>))" ..
    qed
    with Await_task True show ?thesis by (simp add: worker_step_await)
  qed
next
  case Crashed
  with sep show ?thesis by (simp add: worker_step_crashed)
qed

lemma separated_step:
  assumes "separated s" and "fresh e s"
  shows "separated (step e s)"
proof (cases e)
  case (Submit src)
  with assms separated_submit [of s src] show ?thesis by simp
next
  case (Worker now)
  with assms separated_worker [of s now] show ?thesis by simp
next
  case (Task_done task out)
  with assms separated_task_done [of s task out] show ?thesis by simp
qed

lemma separated_exec: "separated s \<Longrightarrow> obeys evs s \<Longrightarrow> separated (exec evs s)"
  by (induction evs arbitrary: s) (simp_all add: separated_step)

lemma result_key_dispatched:
  assumes c: "consistent s" and k: "p \<in> fst ` set (translate_result s)"
  shows "p \<in> set (dispatched s)"
proof -
  from k obtain task t where "(p, task, t) \<in> set (translate_result s)" by force
  from entry_done [OF c this] have "task < length (tasks s)" "fst (tasks s ! task) = p"
    by simp_all
  then have "p = map fst (tasks s) ! task" "task < length (map fst (tasks s))" by simp_all
  then show ?thesis unfolding dispatched_def by (metis nth_mem)
qed

text \<open>
  C9. In a run in which every path is submitted only while it is neither pending, nor
  being translated, nor a key of \<^verbatim>\<open>translate_result\<close> (the paths are built from the ids
  of distinct messages), every key of \<^verbatim>\<open>translate_result\<close> is a path the worker has taken
  off the pending list and called the backend on, and it is not in the pending list;
  and the path taken off the list whose result is not published yet is in neither.
\<close>

theorem C9_result_after_queue:
  assumes "obeys evs init"
  shows "(\<forall>p \<in> fst ` set (translate_result (exec evs init)).
            p \<in> set (dispatched (exec evs init)) \<and>
            p \<notin> set (translate_tasks (exec evs init))) \<and>
         (\<forall>p. being_translated (exec evs init) = Some p \<longrightarrow>
            p \<notin> set (translate_tasks (exec evs init)) \<and>
            map_of (translate_result (exec evs init)) p = None)"
proof -
  have sep: "separated (exec evs init)"
    using separated_init assms by (rule separated_exec)
  have c: "consistent (exec evs init)" by (rule consistent_reachable)
  show ?thesis
  proof (intro conjI ballI allI impI)
    fix p
    assume "p \<in> fst ` set (translate_result (exec evs init))"
    then show "p \<in> set (dispatched (exec evs init))" by (rule result_key_dispatched [OF c])
  next
    fix p
    assume k: "p \<in> fst ` set (translate_result (exec evs init))"
    show "p \<notin> set (translate_tasks (exec evs init))"
      using queue_not_result [OF sep, of p] k by blast
  next
    fix p
    assume "being_translated (exec evs init) = Some p"
    from translated_nowhere [OF sep this]
    show "p \<notin> set (translate_tasks (exec evs init))" by simp
  next
    fix p
    assume "being_translated (exec evs init) = Some p"
    from translated_nowhere [OF sep this]
    show "map_of (translate_result (exec evs init)) p = None"
      by (simp add: map_of_eq_None_iff)
  qed
qed

theorem C9_result_after_queue_witness:
  "obeys [Submit ''a'', Submit ''b'', Worker 0] init \<and>
   being_translated (exec [Submit ''a'', Submit ''b'', Worker 0] init) = Some ''a'' \<and>
   translate_tasks (exec [Submit ''a'', Submit ''b'', Worker 0] init) = [''b''] \<and>
   translate_result (exec [Submit ''a'', Submit ''b'', Worker 0] init) = [] \<and>
   obeys [Submit ''a'', Submit ''b'', Worker 0, Task_done 0 (Success ''translated/a''), Worker 5] init \<and>
   translate_result
     (exec [Submit ''a'', Submit ''b'', Worker 0, Task_done 0 (Success ''translated/a''), Worker 5] init)
     = [(''a'', 0, 5)] \<and>
   translate_tasks
     (exec [Submit ''a'', Submit ''b'', Worker 0, Task_done 0 (Success ''translated/a''), Worker 5] init)
     = [''b''] \<and>
   dispatched
     (exec [Submit ''a'', Submit ''b'', Worker 0, Task_done 0 (Success ''translated/a''), Worker 5] init)
     = [''a'']"
  using C9_result_after_queue [of "[Submit ''a'', Submit ''b'', Worker 0]"]
    C9_result_after_queue
      [of "[Submit ''a'', Submit ''b'', Worker 0, Task_done 0 (Success ''translated/a''), Worker 5]"]
  by (simp add: init_def fresh_def being_translated_def add_translate_task_def translater_worker_step_def
      task_status_def task_done_def dispatched_def timeout_photos_def float_add_def
      TRANSLATE_RESULT_TIMEOUT_def reap_next_def)

subsection \<open>What the steps other than the worker's leave alone\<close>

lemma not_worker_step:
  assumes "\<not> is_worker e"
  shows "worker (step e s) = worker s"
    and "translate_result (step e s) = translate_result s"
    and "dispatched (step e s) = dispatched s"
    and "translate_tasks (step e s) = translate_tasks s @ submitted [e]"
  using assms
  by (cases e; simp add: is_worker_def dispatched_def map_fst_mark_done add_translate_task_def)+

lemma not_worker_exec:
  "filter is_worker evs = [] \<Longrightarrow> dispatched (exec evs s) = dispatched s"
proof (induction evs arbitrary: s)
  case Nil
  then show ?case by simp
next
  case (Cons e es)
  then have "\<not> is_worker e" "filter is_worker es = []" by (auto split: if_splits)
  with Cons.IH [of "step e s"] show ?case by (simp add: not_worker_step)
qed

lemma is_worker_Worker: "is_worker e \<longleftrightarrow> (\<exists>now. e = Worker now)"
  by (cases e) (simp_all add: is_worker_def)

subsection \<open>The sweep\<close>

lemma reap_step:
  assumes c: "consistent s" and w: "worker s = Sleep_reap tp rest"
  shows "translater_worker_step now s =
     s\<lparr>translate_result := AList.delete tp (translate_result s), worker := reap_next rest\<rparr>"
proof -
  from reap_keys [OF c w] have "tp \<in> fst ` set (translate_result s)" by simp
  then obtain task t where m: "map_of (translate_result s) tp = Some (task, t)"
    by (cases "map_of (translate_result s) tp") (auto simp: map_of_eq_None_iff)
  then have "(tp, task, t) \<in> set (translate_result s)" by (rule map_of_SomeD)
  from entry_done [OF c this] have "task_done s task" by (simp add: task_done_iff)
  with w m show ?thesis by (simp add: worker_step_reap_delete)
qed

lemma reap_run:
  assumes "consistent s" and "worker s = reap_next tps" and "distinct tps"
    and "set tps \<subseteq> fst ` set (translate_result s)"
    and "length (filter is_worker evs) = length tps"
  shows "map_of (translate_result (exec evs s)) q
           = (if q \<in> set tps then None else map_of (translate_result s) q) \<and>
         worker (exec evs s) = Sleep_idle"
  using assms
proof (induction evs arbitrary: s tps)
  case Nil
  then show ?case by (simp add: reap_next_def)
next
  case (Cons e es)
  show ?case
  proof (cases "is_worker e")
    case False
    have "consistent (step e s)" using Cons.prems(1) by (rule consistent_step)
    moreover have "worker (step e s) = reap_next tps"
      using False Cons.prems(2) by (simp add: not_worker_step)
    moreover have "set tps \<subseteq> fst ` set (translate_result (step e s))"
      using False Cons.prems(4) by (simp add: not_worker_step)
    moreover have "length (filter is_worker es) = length tps"
      using False Cons.prems(5) by simp
    ultimately have "map_of (translate_result (exec es (step e s))) q
           = (if q \<in> set tps then None else map_of (translate_result (step e s)) q) \<and>
         worker (exec es (step e s)) = Sleep_idle"
      using Cons.prems(3) by (intro Cons.IH)
    with False show ?thesis by (simp add: not_worker_step)
  next
    case True
    then obtain now where e: "e = Worker now" by (auto simp: is_worker_Worker)
    from True Cons.prems(5) obtain tp rest where tps: "tps = tp # rest"
      by (cases tps) auto
    with Cons.prems(2) have w: "worker s = Sleep_reap tp rest" by (simp add: reap_next_def)
    let ?s' = "s\<lparr>translate_result := AList.delete tp (translate_result s),
         worker := reap_next rest\<rparr>"
    have st: "step e s = ?s'" using e reap_step [OF Cons.prems(1) w] by simp
    have "consistent (step e s)" using Cons.prems(1) by (rule consistent_step)
    then have c': "consistent ?s'" by (simp add: st)
    have "map_of (translate_result (exec es ?s')) q
           = (if q \<in> set rest then None else map_of (translate_result ?s') q) \<and>
         worker (exec es ?s') = Sleep_idle"
    proof (rule Cons.IH [OF c'])
      show "worker ?s' = reap_next rest" by simp
      show "distinct rest" using Cons.prems(3) tps by simp
      show "set rest \<subseteq> fst ` set (translate_result ?s')"
        using Cons.prems(3,4) tps by (auto simp: keys_delete)
      show "length (filter is_worker es) = length rest"
        using True Cons.prems(5) tps by simp
    qed
    then show ?thesis by (simp add: st tps delete_conv)
  qed
qed

lemma sweep_then_dispatch:
  assumes "consistent s" and "worker s = reap_next tps" and "distinct tps"
    and "set tps \<subseteq> fst ` set (translate_result s)"
    and "translate_tasks s \<noteq> []"
    and "length (filter is_worker evs) = Suc (length tps)"
  shows "dispatched (exec evs s) = dispatched s @ [hd (translate_tasks s)]"
  using assms
proof (induction evs arbitrary: s tps)
  case Nil
  then show ?case by simp
next
  case (Cons e es)
  show ?case
  proof (cases "is_worker e")
    case False
    have "dispatched (exec es (step e s))
        = dispatched (step e s) @ [hd (translate_tasks (step e s))]"
    proof (rule Cons.IH)
      show "consistent (step e s)" using Cons.prems(1) by (rule consistent_step)
      show "worker (step e s) = reap_next tps"
        using False Cons.prems(2) by (simp add: not_worker_step)
      show "distinct tps" by (rule Cons.prems(3))
      show "set tps \<subseteq> fst ` set (translate_result (step e s))"
        using False Cons.prems(4) by (simp add: not_worker_step)
      show "translate_tasks (step e s) \<noteq> []"
        using False Cons.prems(5) by (simp add: not_worker_step)
      show "length (filter is_worker es) = Suc (length tps)"
        using False Cons.prems(6) by simp
    qed
    with False Cons.prems(5) show ?thesis by (simp add: not_worker_step)
  next
    case True
    then obtain now where e: "e = Worker now" by (auto simp: is_worker_Worker)
    show ?thesis
    proof (cases tps)
      case Nil
      with Cons.prems(2) have w: "worker s = Sleep_idle" by (simp add: reap_next_def)
      from Cons.prems(5) obtain p rest where q: "translate_tasks s = p # rest"
        by (cases "translate_tasks s") auto
      from True Nil Cons.prems(6) have "filter is_worker es = []" by simp
      then have "dispatched (exec es (step e s)) = dispatched (step e s)"
        by (rule not_worker_exec)
      with e w q worker_pops_head(1) [of s p rest now] show ?thesis by simp
    next
      case (Cons tp rest)
      with Cons.prems(2) have w: "worker s = Sleep_reap tp rest" by (simp add: reap_next_def)
      let ?s' = "s\<lparr>translate_result := AList.delete tp (translate_result s),
           worker := reap_next rest\<rparr>"
      have st: "step e s = ?s'" using e reap_step [OF Cons.prems(1) w] by simp
      have "consistent (step e s)" using Cons.prems(1) by (rule consistent_step)
      then have c': "consistent ?s'" by (simp add: st)
      have "dispatched (exec es ?s') = dispatched ?s' @ [hd (translate_tasks ?s')]"
      proof (rule Cons.IH [OF c'])
        show "worker ?s' = reap_next rest" by simp
        show "distinct rest" using Cons.prems(3) Cons by simp
        show "set rest \<subseteq> fst ` set (translate_result ?s')"
          using Cons.prems(3,4) Cons by (auto simp: keys_delete)
        show "translate_tasks ?s' \<noteq> []" using Cons.prems(5) by simp
        show "length (filter is_worker es) = Suc (length rest)"
          using True Cons.prems(6) Cons by simp
      qed
      then show ?thesis by (simp add: st dispatched_def)
    qed
  qed
qed

subsection \<open>Eviction from the result dict\<close>

text \<open>
  C2, as stated, fails. The result for \<^verbatim>\<open>a\<close> is published at clock reading 0. The worker
  publishes the next result at reading 600, the very end of the timeout, and sweeps: the
  entry for \<^verbatim>\<open>a\<close> stays, since \<^verbatim>\<open>0 + 600 < 600\<close> is false (the float sum is exactly 600).
  After that the pending list is empty, the worker's wake-ups at readings 5000 and 6000
  do not sweep, and the entry is still there.
\<close>

theorem C2_counterexample:
  "map_of (translate_result
      (exec [Submit ''a'', Worker 0, Task_done 0 (Success ''translated/a''), Worker 0,
             Submit ''b'', Worker 1, Task_done 1 (Success ''translated/b''), Worker 600] init))
      ''a'' = Some (0, 0) \<and>
   worker
      (exec [Submit ''a'', Worker 0, Task_done 0 (Success ''translated/a''), Worker 0,
             Submit ''b'', Worker 1, Task_done 1 (Success ''translated/b''), Worker 600] init)
      = Sleep_idle \<and>
   map_of (translate_result
      (exec [Submit ''a'', Worker 0, Task_done 0 (Success ''translated/a''), Worker 0,
             Submit ''b'', Worker 1, Task_done 1 (Success ''translated/b''), Worker 600,
             Worker 5000, Worker 6000] init))
      ''a'' = Some (0, 0)"
  by (simp add: init_def add_translate_task_def translater_worker_step_def task_status_def task_done_def
      timeout_photos_def float_add_def TRANSLATE_RESULT_TIMEOUT_def reap_next_def)

lemma timeout_photos_mem:
  assumes d: "distinct (map fst res)" and m: "map_of res src = Some (task, T)"
  shows "src \<in> set (timeout_photos res now) \<longleftrightarrow> float_add T TRANSLATE_RESULT_TIMEOUT < now"
proof
  assume "src \<in> set (timeout_photos res now)"
  then obtain tk t where mem: "(src, tk, t) \<in> set res" and lt: "float_add t TRANSLATE_RESULT_TIMEOUT < now"
    by (auto simp: timeout_photos_def)
  from d mem have "map_of res src = Some (tk, t)" by (rule map_of_is_SomeI)
  with m lt show "float_add T TRANSLATE_RESULT_TIMEOUT < now" by simp
next
  assume lt: "float_add T TRANSLATE_RESULT_TIMEOUT < now"
  from m have "(src, task, T) \<in> set res" by (rule map_of_SomeD)
  with lt show "src \<in> set (timeout_photos res now)"
    by (force simp: timeout_photos_def)
qed

lemma quiet_step:
  assumes "\<not> is_worker e \<or> worker s = Sleep_idle \<or>
     (\<exists>p tk. worker s = Sleep_task p tk \<and> \<not> task_done s tk)"
  shows "translate_result (step e s) = translate_result s"
proof (cases "is_worker e")
  case False
  then show ?thesis by (simp add: not_worker_step)
next
  case True
  then obtain now where e: "e = Worker now" by (auto simp: is_worker_Worker)
  from True assms consider "worker s = Sleep_idle"
    | p tk where "worker s = Sleep_task p tk" "\<not> task_done s tk" by blast
  then show ?thesis
  proof cases
    case 1
    with e show ?thesis
      by (cases "translate_tasks s") (simp_all add: worker_step_idle_empty worker_step_idle_pop)
  next
    case 2
    with e show ?thesis by (simp add: worker_step_task_running)
  qed
qed

text \<open>
  C2, amended. An entry of \<^verbatim>\<open>translate_result\<close> published at clock reading \<open>T\<close> leaves the
  dict only through a sweep, and the worker sweeps only right after it has published
  another result. A step that is not the worker's, a wake-up of the worker on an empty
  or non-empty pending list at line 60, and a wake-up that finds its task still running
  leave the dict as it is. When the worker publishes the result of another path at reading
  \<open>now\<close>, the entry is still in the dict at the end of that step, and once the worker has
  woken up once for every expired entry, the entry is gone if the float sum
  \<^verbatim>\<open>T + TRANSLATE_RESULT_TIMEOUT\<close> is less than \<open>now\<close> and is still there if it is not,
  whatever the other steps in between.
\<close>

theorem C2_eviction:
  assumes "map_of (translate_result (exec evs init)) src = Some (task, T)"
  shows "(\<not> is_worker e \<or> worker (exec evs init) = Sleep_idle \<or>
            (\<exists>p tk. worker (exec evs init) = Sleep_task p tk \<and> \<not> task_done (exec evs init) tk) \<longrightarrow>
            translate_result (step e (exec evs init)) = translate_result (exec evs init)) \<and>
         (worker (exec evs init) = Sleep_task p tk \<and> task_done (exec evs init) tk \<and> p \<noteq> src \<longrightarrow>
            map_of (translate_result (translater_worker_step now (exec evs init))) src = Some (task, T) \<and>
            (length (filter is_worker evs') =
               length (timeout_photos (translate_result (translater_worker_step now (exec evs init))) now) \<longrightarrow>
             map_of (translate_result (exec evs' (translater_worker_step now (exec evs init)))) src
               = (if float_add T TRANSLATE_RESULT_TIMEOUT < now then None else Some (task, T))))"
proof (intro conjI impI)
  assume "\<not> is_worker e \<or> worker (exec evs init) = Sleep_idle \<or>
    (\<exists>p tk. worker (exec evs init) = Sleep_task p tk \<and> \<not> task_done (exec evs init) tk)"
  then show "translate_result (step e (exec evs init)) = translate_result (exec evs init)"
    by (rule quiet_step)
next
  let ?s = "exec evs init"
  let ?res = "AList.update p (tk, now) (translate_result ?s)"
  let ?s1 = "?s\<lparr>translate_result := ?res, worker := reap_next (timeout_photos ?res now)\<rparr>"
  assume a: "worker ?s = Sleep_task p tk \<and> task_done ?s tk \<and> p \<noteq> src"
  then have st: "translater_worker_step now ?s = ?s1" by (simp add: worker_step_task_publish)
  have c: "consistent ?s" by (rule consistent_reachable)
  have c1: "consistent ?s1" using consistent_worker [OF c, of now] by (simp add: st)
  from a have "src \<noteq> p" by auto
  with assms have m1: "map_of ?res src = Some (task, T)" by (simp add: update_conv)
  then show here: "map_of (translate_result (translater_worker_step now ?s)) src = Some (task, T)"
    by (simp add: st)
  assume len: "length (filter is_worker evs') =
     length (timeout_photos (translate_result (translater_worker_step now ?s)) now)"
  have d: "distinct (map fst ?res)" using keys_distinct [OF c1] by simp
  have "map_of (translate_result (exec evs' ?s1)) src
           = (if src \<in> set (timeout_photos ?res now) then None
              else map_of (translate_result ?s1) src) \<and>
         worker (exec evs' ?s1) = Sleep_idle"
  proof (rule reap_run [OF c1])
    show "worker ?s1 = reap_next (timeout_photos ?res now)" by simp
    show "distinct (timeout_photos ?res now)" using d by (rule timeout_photos_distinct)
    show "set (timeout_photos ?res now) \<subseteq> fst ` set (translate_result ?s1)"
      using timeout_photos_subset [of ?res now] by simp
    show "length (filter is_worker evs') = length (timeout_photos ?res now)"
      using len by (simp add: st)
  qed
  with timeout_photos_mem [OF d m1, of now] m1
  show "map_of (translate_result (exec evs' (translater_worker_step now ?s))) src
      = (if float_add T TRANSLATE_RESULT_TIMEOUT < now then None else Some (task, T))"
    by (simp add: st)
qed

theorem C2_eviction_witness:
  "map_of (translate_result
      (exec [Submit ''a'', Worker 0, Task_done 0 (Success ''translated/a''), Worker 0,
             Submit ''b'', Worker 1, Task_done 1 (Success ''translated/b'')] init))
      ''a'' = Some (0, 0) \<and>
   worker (exec [Submit ''a'', Worker 0, Task_done 0 (Success ''translated/a''), Worker 0,
             Submit ''b'', Worker 1, Task_done 1 (Success ''translated/b'')] init)
     = Sleep_task ''b'' 1 \<and>
   timeout_photos (translate_result (translater_worker_step 601
      (exec [Submit ''a'', Worker 0, Task_done 0 (Success ''translated/a''), Worker 0,
             Submit ''b'', Worker 1, Task_done 1 (Success ''translated/b'')] init))) 601 = [''a''] \<and>
   map_of (translate_result (exec [Submit ''c'', Worker 602] (translater_worker_step 601
      (exec [Submit ''a'', Worker 0, Task_done 0 (Success ''translated/a''), Worker 0,
             Submit ''b'', Worker 1, Task_done 1 (Success ''translated/b'')] init)))) ''a'' = None \<and>
   map_of (translate_result (exec [Submit ''c''] (translater_worker_step 600
      (exec [Submit ''a'', Worker 0, Task_done 0 (Success ''translated/a''), Worker 0,
             Submit ''b'', Worker 1, Task_done 1 (Success ''translated/b'')] init)))) ''a''
     = Some (0, 0)"
  using C2_eviction [of
      "[Submit ''a'', Worker 0, Task_done 0 (Success ''translated/a''), Worker 0,
        Submit ''b'', Worker 1, Task_done 1 (Success ''translated/b'')]"
      "''a''" 0 0 "Submit ''c''" "''b''" 1 601 "[Submit ''c'', Worker 602]"]
    C2_eviction [of
      "[Submit ''a'', Worker 0, Task_done 0 (Success ''translated/a''), Worker 0,
        Submit ''b'', Worker 1, Task_done 1 (Success ''translated/b'')]"
      "''a''" 0 0 "Submit ''c''" "''b''" 1 600 "[Submit ''c'']"]
  by (simp add: init_def add_translate_task_def translater_worker_step_def task_status_def task_done_def
      timeout_photos_def float_add_def TRANSLATE_RESULT_TIMEOUT_def reap_next_def is_worker_def)

subsection \<open>A failed backend call\<close>

lemma no_crash_worker:
  assumes c: "consistent s" and n: "worker s \<noteq> Crashed"
  shows "worker (translater_worker_step now s) \<noteq> Crashed"
proof (cases "worker s")
  case Sleep_idle
  then show ?thesis
    by (cases "translate_tasks s") (simp_all add: worker_step_idle_empty worker_step_idle_pop)
next
  case (Sleep_task p task)
  then show ?thesis
    by (cases "task_done s task")
      (simp_all add: worker_step_task_running worker_step_task_publish reap_next_simps)
next
  case (Sleep_reap tp rest)
  with reap_step [OF c this, of now] show ?thesis by (simp add: reap_next_simps)
next
  case (Await_task task rest)
  with never_awaits [OF c, of task rest] show ?thesis by simp
next
  case Crashed
  with n show ?thesis by simp
qed

lemma no_crash_step:
  assumes "consistent s" and "worker s \<noteq> Crashed"
  shows "worker (step e s) \<noteq> Crashed"
proof (cases "is_worker e")
  case False
  with assms(2) show ?thesis by (simp add: not_worker_step)
next
  case True
  then obtain now where "e = Worker now" by (auto simp: is_worker_Worker)
  with no_crash_worker [OF assms, of now] show ?thesis by simp
qed

lemma no_crash_exec:
  "consistent s \<Longrightarrow> worker s \<noteq> Crashed \<Longrightarrow> worker (exec evs s) \<noteq> Crashed"
  by (induction evs arbitrary: s) (simp_all add: no_crash_step consistent_step)

lemma worker_never_crashed: "worker (exec evs init) \<noteq> Crashed"
proof (rule no_crash_exec [OF consistent_init])
  show "worker init \<noteq> Crashed" by (simp add: init_def)
qed

lemma task_status_done: "task_status s task = Some (Done out) \<Longrightarrow> task_done s task"
  by (simp add: task_done_def)

text \<open>
  C3. In no state that a run reaches has the worker been ended by an exception. When
  the task of the path \<open>p\<close> the worker is waiting for has raised, the worker's next wake-up
  stores the task under \<open>p\<close> in \<^verbatim>\<open>translate_result\<close> with the clock reading; the task
  stays failed, and a caller that then reads the entry answers "translation failed". If
  a path is pending, then after one more wake-up of the worker for every expired entry
  and one after that, whatever the other steps in between, the backend has been called
  on the head of the pending list.
\<close>

theorem C3_failure_isolated:
  "worker (exec evs init) \<noteq> Crashed \<and>
   (worker (exec evs init) = Sleep_task p task \<and>
    task_status (exec evs init) task = Some (Done Failure) \<longrightarrow>
      map_of (translate_result (translater_worker_step now (exec evs init))) p = Some (task, now) \<and>
      task_status (translater_worker_step now (exec evs init)) task = Some (Done Failure) \<and>
      run_deliver p (translater_worker_step now (exec evs init)) = [Delete_last_message, Reply_message Failed] \<and>
      (translate_tasks (exec evs init) \<noteq> [] \<and>
       length (filter is_worker evs') =
         Suc (length (timeout_photos (translate_result (translater_worker_step now (exec evs init))) now)) \<longrightarrow>
         worker (exec evs' (translater_worker_step now (exec evs init))) \<noteq> Crashed \<and>
         dispatched (exec evs' (translater_worker_step now (exec evs init)))
           = dispatched (exec evs init) @ [hd (translate_tasks (exec evs init))]))"
proof (intro conjI impI)
  show "worker (exec evs init) \<noteq> Crashed" by (rule worker_never_crashed)
next
  let ?s = "exec evs init"
  let ?res = "AList.update p (task, now) (translate_result ?s)"
  let ?s1 = "?s\<lparr>translate_result := ?res, worker := reap_next (timeout_photos ?res now)\<rparr>"
  assume a: "worker ?s = Sleep_task p task \<and> task_status ?s task = Some (Done Failure)"
  then have dn: "task_done ?s task" by (simp add: task_status_done)
  with a have st: "translater_worker_step now ?s = ?s1" by (simp add: worker_step_task_publish)
  have c: "consistent ?s" by (rule consistent_reachable)
  have c1: "consistent ?s1" using consistent_worker [OF c, of now] by (simp add: st)
  show m: "map_of (translate_result (translater_worker_step now ?s)) p = Some (task, now)"
    by (simp add: st update_conv)
  from a show ts: "task_status (translater_worker_step now ?s) task = Some (Done Failure)"
    by (simp add: st task_status_def split: if_splits)
  from m ts show "run_deliver p (translater_worker_step now ?s) = [Delete_last_message, Reply_message Failed]"
    by (simp add: run_deliver_def)
  assume b: "translate_tasks ?s \<noteq> [] \<and>
     length (filter is_worker evs') =
       Suc (length (timeout_photos (translate_result (translater_worker_step now ?s)) now))"
  have "translater_worker_step now ?s = exec (evs @ [Worker now]) init" by (simp add: exec_append)
  then have "exec evs' (translater_worker_step now ?s) = exec ((evs @ [Worker now]) @ evs') init"
    by (simp only: exec_append)
  then show "worker (exec evs' (translater_worker_step now ?s)) \<noteq> Crashed"
    by (simp only: worker_never_crashed not_False_eq_True)
  have "dispatched (exec evs' ?s1) = dispatched ?s1 @ [hd (translate_tasks ?s1)]"
  proof (rule sweep_then_dispatch [OF c1])
    show "worker ?s1 = reap_next (timeout_photos ?res now)" by simp
    show "distinct (timeout_photos ?res now)"
      using keys_distinct [OF c1] timeout_photos_distinct [of ?res now] by simp
    show "set (timeout_photos ?res now) \<subseteq> fst ` set (translate_result ?s1)"
      using timeout_photos_subset [of ?res now] by simp
    show "translate_tasks ?s1 \<noteq> []" using b by simp
    show "length (filter is_worker evs') = Suc (length (timeout_photos ?res now))"
      using b by (simp add: st)
  qed
  then show "dispatched (exec evs' (translater_worker_step now ?s))
      = dispatched ?s @ [hd (translate_tasks ?s)]"
    by (simp add: st dispatched_def)
qed

theorem C3_failure_isolated_witness:
  "worker (exec [Submit ''a'', Submit ''b'', Worker 0, Task_done 0 Failure] init)
     = Sleep_task ''a'' 0 \<and>
   task_status (exec [Submit ''a'', Submit ''b'', Worker 0, Task_done 0 Failure] init) 0
     = Some (Done Failure) \<and>
   translate_result
     (translater_worker_step 3 (exec [Submit ''a'', Submit ''b'', Worker 0, Task_done 0 Failure] init))
     = [(''a'', 0, 3)] \<and>
   run_deliver ''a''
     (translater_worker_step 3 (exec [Submit ''a'', Submit ''b'', Worker 0, Task_done 0 Failure] init))
     = [Delete_last_message, Reply_message Failed] \<and>
   dispatched (exec [Submit ''c'', Worker 4]
     (translater_worker_step 3 (exec [Submit ''a'', Submit ''b'', Worker 0, Task_done 0 Failure] init)))
     = [''a'', ''b''] \<and>
   worker (exec [Submit ''c'', Worker 4]
     (translater_worker_step 3 (exec [Submit ''a'', Submit ''b'', Worker 0, Task_done 0 Failure] init)))
     = Sleep_task ''b'' 1"
  using C3_failure_isolated [of "[Submit ''a'', Submit ''b'', Worker 0, Task_done 0 Failure]"
      "''a''" 0 3 "[Submit ''c'', Worker 4]"]
  by (simp add: init_def add_translate_task_def translater_worker_step_def task_status_def task_done_def
      timeout_photos_def float_add_def TRANSLATE_RESULT_TIMEOUT_def reap_next_def is_worker_def run_deliver_def
      dispatched_def)

subsection \<open>The caller's wait for its result\<close>

text \<open>
  C4, as stated, fails. The entry of \<^verbatim>\<open>a\<close>, published at clock reading 0, is swept after
  the result of \<^verbatim>\<open>b\<close> is published at reading 601. A caller of \<^verbatim>\<open>a\<close> that looks at
  \<^verbatim>\<open>translate_result\<close> from then on, while the worker serves a third path and the clock
  passes 1400, is still in its loop after the last look, and nothing was sent to it.
\<close>

theorem C4_counterexample:
  "translate_result
     (exec [Submit ''a'', Worker 0, Task_done 0 (Success ''translated/a''), Worker 0,
            Submit ''b'', Worker 1, Task_done 1 (Success ''translated/b''), Worker 601,
            Worker 602] init) = [(''b'', 1, 601)] \<and>
   run_wait_result ''a''
     (trace [Worker 603, Submit ''c'', Worker 1300, Task_done 2 (Success ''translated/c''),
             Worker 1400, Worker 1401]
        (exec [Submit ''a'', Worker 0, Task_done 0 (Success ''translated/a''), Worker 0,
               Submit ''b'', Worker 1, Task_done 1 (Success ''translated/b''), Worker 601,
               Worker 602] init)) = None"
  by (simp add: init_def add_translate_task_def translater_worker_step_def task_status_def task_done_def
      timeout_photos_def float_add_def TRANSLATE_RESULT_TIMEOUT_def reap_next_def)

lemma gone_step:
  assumes g: "gone src s" and ne: "e \<noteq> Submit src"
  shows "gone src (step e s)"
proof -
  from g have m: "map_of (translate_result s) src = None"
    and q: "src \<notin> set (translate_tasks s)" and b: "being_translated s \<noteq> Some src"
    by (simp_all add: gone_def)
  show ?thesis
  proof (cases e)
    case (Submit q')
    with ne m q b show ?thesis
      by (auto simp: gone_def add_translate_task_def being_translated_simps)
  next
    case (Task_done task out)
    with m q b show ?thesis by (simp add: gone_def being_translated_simps)
  next
    case (Worker now)
    have "gone src (translater_worker_step now s)"
    proof (cases "worker s")
      case Sleep_idle
      show ?thesis
      proof (cases "translate_tasks s")
        case Nil
        with Sleep_idle g show ?thesis by (simp add: worker_step_idle_empty)
      next
        case (Cons p rest)
        with q have "src \<noteq> p" "src \<notin> set rest" by auto
        with Sleep_idle Cons m show ?thesis
          by (simp add: worker_step_idle_pop gone_def being_translated_def)
      qed
    next
      case (Sleep_task p task)
      with b have "src \<noteq> p" by (simp add: being_translated_def)
      show ?thesis
      proof (cases "task_done s task")
        case False
        with Sleep_task g show ?thesis by (simp add: worker_step_task_running)
      next
        case True
        with Sleep_task m q \<open>src \<noteq> p\<close> show ?thesis
          by (simp add: worker_step_task_publish gone_def being_translated_simps update_conv)
      qed
    next
      case (Sleep_reap tp rest)
      show ?thesis
      proof (cases "map_of (translate_result s) tp")
        case None
        with Sleep_reap m q show ?thesis
          by (simp add: worker_step_reap_missing gone_def being_translated_def)
      next
        case (Some v)
        obtain task t where "v = (task, t)" by (cases v)
        with Some Sleep_reap m q show ?thesis
          by (cases rest)
            (simp_all add: worker_step_reap_delete gone_def being_translated_def
              reap_next_def delete_conv)
      qed
    next
      case (Await_task task rest)
      with m q show ?thesis
        by (cases rest)
          (simp_all add: worker_step_await gone_def being_translated_def reap_next_def)
    next
      case Crashed
      with g show ?thesis by (simp add: worker_step_crashed)
    qed
    with Worker show ?thesis by simp
  qed
qed

lemma submitted_Cons: "submitted (e # es) = submitted [e] @ submitted es"
  by (cases e) simp_all

lemma gone_trace:
  assumes "gone src s" and "src \<notin> set (submitted evs)"
  shows "run_wait_result src (trace evs s) = None"
  using assms
proof (induction evs arbitrary: s)
  case Nil
  then show ?case by simp
next
  case (Cons e es)
  from Cons.prems(2) have ne: "e \<noteq> Submit src" and rest: "src \<notin> set (submitted es)"
    by (auto simp: submitted_Cons [of e es])
  from Cons.prems(1) ne have g: "gone src (step e s)" by (rule gone_step)
  then have "map_of (translate_result (step e s)) src = None" by (simp add: gone_def)
  with Cons.IH [OF g rest] show ?case by simp
qed

lemma wait_result_Some:
  "run_wait_result src obs = Some s' \<Longrightarrow> s' \<in> set obs \<and> map_of (translate_result s') src \<noteq> None"
  by (induction obs) (auto split: if_splits)

lemma wait_result_None:
  "run_wait_result src obs = None \<longleftrightarrow> (\<forall>s' \<in> set obs. map_of (translate_result s') src = None)"
  by (induction obs) simp_all

text \<open>
  C4, amended. The loop of lines 234 and 235 is left only at a look that finds the path
  among the keys of \<^verbatim>\<open>translate_result\<close>, and the caller is still in it when no look
  has found the path there; the code has no "result expired" report. Once the path is
  nowhere (its entry swept, the path neither pending nor being translated) and as long
  as the same path is not submitted again, it never becomes a key again: whatever steps
  follow, the caller is still in the loop after every look, and the loop sends nothing.
  A caller that has left the loop and finds the entry swept at line 238 sends the text of
  a failed translation.
\<close>

theorem C4_wait_on_evicted:
  "(run_wait_result src obs = Some s' \<longrightarrow>
      s' \<in> set obs \<and> map_of (translate_result s') src \<noteq> None) \<and>
   (run_wait_result src obs = None \<longleftrightarrow>
      (\<forall>s' \<in> set obs. map_of (translate_result s') src = None)) \<and>
   (gone src s \<and> src \<notin> set (submitted evs) \<longrightarrow>
      run_wait_result src (s # trace evs s) = None) \<and>
   (map_of (translate_result s) src = None \<longrightarrow>
      run_deliver src s = [Delete_last_message, Reply_message Failed])"
proof -
  have late: "run_deliver src s = [Delete_last_message, Reply_message Failed]"
    if "map_of (translate_result s) src = None"
    using that by (simp add: run_deliver_def)
  have still: "run_wait_result src obs = None \<longleftrightarrow>
      (\<forall>s' \<in> set obs. map_of (translate_result s') src = None)"
    by (rule wait_result_None)
  have left: "s' \<in> set obs \<and> map_of (translate_result s') src \<noteq> None"
    if "run_wait_result src obs = Some s'"
    using that by (rule wait_result_Some)
  have stay: "run_wait_result src (s # trace evs s) = None"
    if a: "gone src s \<and> src \<notin> set (submitted evs)"
  proof -
    from a have "run_wait_result src (trace evs s) = None" by (simp add: gone_trace)
    with a show ?thesis by (simp add: gone_def)
  qed
  from left still stay late show ?thesis by blast
qed

theorem C4_wait_on_evicted_witness:
  "gone ''a''
     (exec [Submit ''a'', Worker 0, Task_done 0 (Success ''translated/a''), Worker 0,
            Submit ''b'', Worker 1, Task_done 1 (Success ''translated/b''), Worker 601,
            Worker 602] init) \<and>
   ''a'' \<notin> set (submitted [Worker 603, Submit ''c'', Worker 1300]) \<and>
   run_wait_result ''a''
     (exec [Submit ''a'', Worker 0, Task_done 0 (Success ''translated/a''), Worker 0,
            Submit ''b'', Worker 1, Task_done 1 (Success ''translated/b''), Worker 601,
            Worker 602] init #
      trace [Worker 603, Submit ''c'', Worker 1300]
        (exec [Submit ''a'', Worker 0, Task_done 0 (Success ''translated/a''), Worker 0,
               Submit ''b'', Worker 1, Task_done 1 (Success ''translated/b''), Worker 601,
               Worker 602] init)) = None \<and>
   run_wait_result ''b''
     (trace [Worker 601]
        (exec [Submit ''a'', Worker 0, Task_done 0 (Success ''translated/a''), Worker 0,
               Submit ''b'', Worker 1, Task_done 1 (Success ''translated/b'')] init))
     = Some (translater_worker_step 601
        (exec [Submit ''a'', Worker 0, Task_done 0 (Success ''translated/a''), Worker 0,
               Submit ''b'', Worker 1, Task_done 1 (Success ''translated/b'')] init)) \<and>
   run_deliver ''a''
     (exec [Submit ''a'', Worker 0, Task_done 0 (Success ''translated/a''), Worker 0,
            Submit ''b'', Worker 1, Task_done 1 (Success ''translated/b''), Worker 601,
            Worker 602] init) = [Delete_last_message, Reply_message Failed]"
  using C4_wait_on_evicted [of "''a''" "[]" init
      "exec [Submit ''a'', Worker 0, Task_done 0 (Success ''translated/a''), Worker 0,
             Submit ''b'', Worker 1, Task_done 1 (Success ''translated/b''), Worker 601,
             Worker 602] init"
      "[Worker 603, Submit ''c'', Worker 1300]"]
  by (simp add: init_def add_translate_task_def translater_worker_step_def task_status_def task_done_def
      timeout_photos_def float_add_def TRANSLATE_RESULT_TIMEOUT_def reap_next_def gone_def
      being_translated_def)

subsection \<open>Every submitted path is called\<close>

lemma submitted_append: "submitted (es @ fs) = submitted es @ submitted fs"
proof (induction es)
  case Nil
  then show ?case by simp
next
  case (Cons e es)
  then show ?case by (cases e) simp_all
qed

lemma submitted_wake_ups: "submitted (replicate n (Worker now)) = []"
  by (induction n) simp_all

lemma count_wake_ups: "length (filter is_worker (replicate n (Worker now))) = n"
  by (induction n) (simp_all add: is_worker_def)

lemma task_done_after_end:
  assumes "task < length (tasks s)"
  shows "task_done (step (Task_done task out) s) task"
proof (cases "task_status s task = Some Running")
  case True
  with assms show ?thesis by (simp add: task_done_iff)
next
  case False
  with assms show ?thesis by (simp add: task_done_iff task_status_def)
qed

text \<open>
  After the result of a finished task is published, the worker sweeps and then takes the
  head of the pending list: it is back at line 60 and starts the next call.
\<close>

lemma publish_then_dispatch:
  assumes c: "consistent s" and w: "worker s = Sleep_task ph task" and d: "task_done s task"
    and q: "translate_tasks s \<noteq> []"
    and len: "length (filter is_worker evs) =
       Suc (length (timeout_photos (translate_result (translater_worker_step now s)) now))"
  shows "dispatched (exec evs (translater_worker_step now s))
     = dispatched s @ [hd (translate_tasks s)]"
proof -
  let ?res = "AList.update ph (task, now) (translate_result s)"
  let ?tps = "timeout_photos ?res now"
  let ?s1 = "s\<lparr>translate_result := ?res, worker := reap_next ?tps\<rparr>"
  have st: "translater_worker_step now s = ?s1" using w d by (rule worker_step_task_publish)
  have c1: "consistent ?s1" using consistent_worker [OF c, of now] by (simp add: st)
  have "dispatched (exec evs ?s1) = dispatched ?s1 @ [hd (translate_tasks ?s1)]"
  proof (rule sweep_then_dispatch [OF c1])
    show "worker ?s1 = reap_next ?tps" by simp
    show "distinct ?tps" using keys_distinct [OF c1] by (simp add: timeout_photos_distinct)
    show "set ?tps \<subseteq> fst ` set (translate_result ?s1)"
      using timeout_photos_subset [of ?res now] by simp
    show "translate_tasks ?s1 \<noteq> []" using q by simp
    show "length (filter is_worker evs) = Suc (length ?tps)" using len by (simp add: st)
  qed
  then show ?thesis by (simp add: st dispatched_def)
qed

lemma next_dispatch:
  assumes c: "consistent s" and n: "worker s \<noteq> Crashed" and q: "translate_tasks s = p # rest"
  shows "\<exists>evs. submitted evs = [] \<and> dispatched (exec evs s) = dispatched s @ [p]"
proof (cases "worker s")
  case Sleep_idle
  with q worker_pops_head(1) [of s p rest 0]
  have "dispatched (exec [Worker 0] s) = dispatched s @ [p]" by simp
  moreover have "submitted [Worker 0] = []" by simp
  ultimately show ?thesis by blast
next
  case (Sleep_task ph task)
  let ?e = "Task_done task Failure"
  let ?s0 = "step ?e s"
  let ?n = "Suc (length (timeout_photos (translate_result (translater_worker_step 0 ?s0)) 0))"
  let ?evs = "replicate ?n (Worker 0)"
  have ne: "\<not> is_worker ?e" by (simp add: is_worker_def)
  have c0: "consistent ?s0" using c by (rule consistent_step)
  have w0: "worker ?s0 = Sleep_task ph task"
    using Sleep_task not_worker_step(1) [OF ne, of s] by simp
  have q0: "translate_tasks ?s0 = p # rest"
    using q not_worker_step(4) [OF ne, of s] by simp
  have d0: "dispatched ?s0 = dispatched s" using not_worker_step(3) [OF ne, of s] by simp
  from worker_task_exists [OF c Sleep_task] have "task < length (tasks s)" by simp
  then have done0: "task_done ?s0 task" by (rule task_done_after_end)
  have "dispatched (exec ?evs (translater_worker_step 0 ?s0))
      = dispatched ?s0 @ [hd (translate_tasks ?s0)]"
  proof (rule publish_then_dispatch [OF c0 w0 done0])
    show "translate_tasks ?s0 \<noteq> []" using q0 by simp
    show "length (filter is_worker ?evs) = ?n" by (rule count_wake_ups)
  qed
  then have "dispatched (exec (?e # Worker 0 # ?evs) s) = dispatched s @ [p]"
    using q0 d0 by simp
  moreover have "submitted (?e # Worker 0 # ?evs) = []" by (simp add: submitted_wake_ups)
  ultimately show ?thesis by blast
next
  case (Sleep_reap tp tps)
  let ?evs = "replicate (Suc (length (tp # tps))) (Worker 0)"
  have "dispatched (exec ?evs s) = dispatched s @ [hd (translate_tasks s)]"
  proof (rule sweep_then_dispatch [OF c])
    show "worker s = reap_next (tp # tps)" using Sleep_reap by (simp add: reap_next_def)
    show "distinct (tp # tps)" using reap_keys [OF c Sleep_reap] by blast
    show "set (tp # tps) \<subseteq> fst ` set (translate_result s)"
      using reap_keys [OF c Sleep_reap] by blast
    show "translate_tasks s \<noteq> []" using q by simp
    show "length (filter is_worker ?evs) = Suc (length (tp # tps))" by (rule count_wake_ups)
  qed
  with q have "dispatched (exec ?evs s) = dispatched s @ [p]" by simp
  moreover have "submitted ?evs = []" by (rule submitted_wake_ups)
  ultimately show ?thesis by blast
next
  case (Await_task task tps)
  with never_awaits [OF c, of task tps] show ?thesis by simp
next
  case Crashed
  with n show ?thesis by simp
qed

lemma drain:
  assumes "consistent s" and "worker s \<noteq> Crashed"
  shows "\<exists>evs. submitted evs = [] \<and>
           dispatched (exec evs s) = dispatched s @ translate_tasks s"
  using assms
proof (induction k \<equiv> "length (translate_tasks s)" arbitrary: s)
  case 0
  then have "submitted [] = [] \<and> dispatched (exec [] s) = dispatched s @ translate_tasks s"
    by simp
  then show ?case by blast
next
  case (Suc k)
  from Suc.hyps(2) obtain p rest where q: "translate_tasks s = p # rest"
    by (cases "translate_tasks s") auto
  from next_dispatch [OF Suc.prems q] obtain evs1
    where s1: "submitted evs1 = []" and d1: "dispatched (exec evs1 s) = dispatched s @ [p]"
    by blast
  let ?s' = "exec evs1 s"
  from exec_fifo [of evs1 s] s1 d1 q have q': "translate_tasks ?s' = rest" by simp
  have c': "consistent ?s'" using Suc.prems(1) by (rule consistent_exec)
  have n': "worker ?s' \<noteq> Crashed" using Suc.prems by (rule no_crash_exec)
  from Suc.hyps(2) q q' have "k = length (translate_tasks ?s')" by simp
  from Suc.hyps(1) [OF this c' n'] obtain evs2
    where s2: "submitted evs2 = []"
      and d2: "dispatched (exec evs2 ?s') = dispatched ?s' @ translate_tasks ?s'"
    by blast
  from s1 s2 have "submitted (evs1 @ evs2) = []" by (simp add: submitted_append)
  moreover from d2 d1 q q'
  have "dispatched (exec (evs1 @ evs2) s) = dispatched s @ translate_tasks s"
    by (simp add: exec_append)
  ultimately show ?case by blast
qed

text \<open>
  C1. The backend calls made so far, in the order in which the worker made them,
  followed by the paths still pending, are the submitted paths in the order of their
  submission: the calls are a prefix of the submissions, whatever the interleaving and
  whether or not the paths are distinct. The worker's only access to the pending list
  takes its head and starts the call on it. The worker does not stop after a call: when
  the task it waits for has ended and a path is pending, it publishes the result at its
  next wake-up, and after one further wake-up for every expired entry and one more, it
  has started the call on the head of the pending list, whatever the submissions and
  task endings in between. And every run has a continuation without further submissions,
  made of task endings and wake-ups of the worker, after which the backend has been called
  on every submitted path, in the order of submission.
\<close>

theorem C1_fifo:
  "dispatched (exec evs init) @ translate_tasks (exec evs init) = submitted evs \<and>
   (dispatches e (exec evs init) \<longrightarrow>
      dispatched (step e (exec evs init))
        = dispatched (exec evs init) @ [hd (translate_tasks (exec evs init))] \<and>
      translate_tasks (step e (exec evs init)) = tl (translate_tasks (exec evs init))) \<and>
   (worker (exec evs init) = Sleep_task p task \<and> task_done (exec evs init) task \<and>
    translate_tasks (exec evs init) \<noteq> [] \<and>
    length (filter is_worker evs') =
      Suc (length (timeout_photos
        (translate_result (translater_worker_step now (exec evs init))) now)) \<longrightarrow>
      dispatched (exec evs' (translater_worker_step now (exec evs init)))
        = dispatched (exec evs init) @ [hd (translate_tasks (exec evs init))]) \<and>
   (\<exists>evs''. submitted evs'' = [] \<and>
      dispatched (exec (evs @ evs'') init) = submitted evs \<and>
      translate_tasks (exec (evs @ evs'') init) = [])"
proof -
  let ?s = "exec evs init"
  have c: "consistent ?s" by (rule consistent_reachable)
  have a: "dispatched ?s @ translate_tasks ?s = submitted evs"
    using exec_fifo [of evs init] by (simp add: init_def dispatched_def)
  have b: "dispatched (step e s) = dispatched s @ [hd (translate_tasks s)] \<and>
      translate_tasks (step e s) = tl (translate_tasks s)" if "dispatches e s" for s
  proof -
    from that obtain now where e: "e = Worker now" and w: "worker s = Sleep_idle"
      and q: "translate_tasks s \<noteq> []"
      by (cases e) (simp_all add: dispatches_def)
    from q obtain p rest where "translate_tasks s = p # rest" by (cases "translate_tasks s") auto
    with e w worker_pops_head [of s p rest now] show ?thesis by simp
  qed
  have p: "dispatched (exec evs' (translater_worker_step now ?s))
        = dispatched ?s @ [hd (translate_tasks ?s)]"
    if "worker ?s = Sleep_task p task \<and> task_done ?s task \<and> translate_tasks ?s \<noteq> [] \<and>
      length (filter is_worker evs') =
        Suc (length (timeout_photos (translate_result (translater_worker_step now ?s)) now))"
  proof -
    from that have w: "worker ?s = Sleep_task p task" and d: "task_done ?s task"
      and q: "translate_tasks ?s \<noteq> []"
      and len: "length (filter is_worker evs') =
        Suc (length (timeout_photos (translate_result (translater_worker_step now ?s)) now))"
      by blast+
    from c w d q len show ?thesis by (rule publish_then_dispatch)
  qed
  from drain [OF c worker_never_crashed] obtain evs''
    where s: "submitted evs'' = []"
      and d: "dispatched (exec evs'' ?s) = dispatched ?s @ translate_tasks ?s"
    by blast
  from d a have d': "dispatched (exec (evs @ evs'') init) = submitted evs"
    by (simp add: exec_append)
  from exec_fifo [of "evs @ evs''" init] s d'
  have "translate_tasks (exec (evs @ evs'') init) = []"
    by (simp add: init_def dispatched_def submitted_append)
  with s d' have "\<exists>evs''. submitted evs'' = [] \<and>
      dispatched (exec (evs @ evs'') init) = submitted evs \<and>
      translate_tasks (exec (evs @ evs'') init) = []" by blast
  with a b p show ?thesis by blast
qed

theorem C1_fifo_witness:
  "dispatches (Worker 2)
     (exec [Submit ''a'', Submit ''b'', Submit ''c'', Worker 0, Task_done 0 Failure, Worker 1] init) \<and>
   dispatched
     (exec [Submit ''a'', Submit ''b'', Submit ''c'', Worker 0, Task_done 0 Failure, Worker 1,
            Worker 2] init) = [''a'', ''b''] \<and>
   translate_tasks
     (exec [Submit ''a'', Submit ''b'', Submit ''c'', Worker 0, Task_done 0 Failure, Worker 1,
            Worker 2] init) = [''c''] \<and>
   worker
     (exec [Submit ''a'', Submit ''b'', Submit ''c'', Worker 0, Task_done 0 Failure, Worker 1,
            Worker 2, Task_done 1 (Success ''translated/b'')] init) = Sleep_task ''b'' 1 \<and>
   task_done
     (exec [Submit ''a'', Submit ''b'', Submit ''c'', Worker 0, Task_done 0 Failure, Worker 1,
            Worker 2, Task_done 1 (Success ''translated/b'')] init) 1 \<and>
   timeout_photos (translate_result (translater_worker_step 700
     (exec [Submit ''a'', Submit ''b'', Submit ''c'', Worker 0, Task_done 0 Failure, Worker 1,
            Worker 2, Task_done 1 (Success ''translated/b'')] init))) 700 = [''a''] \<and>
   dispatched (exec [Worker 701, Submit ''d'', Worker 702] (translater_worker_step 700
     (exec [Submit ''a'', Submit ''b'', Submit ''c'', Worker 0, Task_done 0 Failure, Worker 1,
            Worker 2, Task_done 1 (Success ''translated/b'')] init)))
     = [''a'', ''b'', ''c'']"
  using
    C1_fifo [of "[Submit ''a'', Submit ''b'', Submit ''c'', Worker 0, Task_done 0 Failure, Worker 1]"
      "Worker 2"]
    C1_fifo [of "[Submit ''a'', Submit ''b'', Submit ''c'', Worker 0, Task_done 0 Failure, Worker 1,
        Worker 2, Task_done 1 (Success ''translated/b'')]"
      "Submit ''d''" "''b''" 1 "[Worker 701, Submit ''d'', Worker 702]" 700]
  by (simp add: init_def dispatches_def translater_worker_step_def add_translate_task_def
      task_status_def task_done_def dispatched_def timeout_photos_def float_add_def
      TRANSLATE_RESULT_TIMEOUT_def reap_next_def is_worker_def)

end
